theory Spec2Isabelle
  imports Complex_Main
begin

section \<open>The metadata cache of services/metadataCache.js\<close>

text \<open>
  The class \<open>MetadataCache\<close> keeps three JavaScript \<open>Map\<close>s (\<open>this.tags\<close>,
  \<open>this.correspondents\<close>, \<open>this.documentTypes\<close>), the time of the last refresh of each
  (\<open>this.lastUpdate\<close>, \<open>null\<close> at first), three blocks of counters (\<open>this.stats\<close>) and
  the time to live \<open>this.CACHE_TTL\<close>. The three families of methods (\<open>ensureTags\<close>,
  \<open>ensureCorrespondents\<close>, \<open>ensureDocumentTypes\<close>, and so on) are the same text up to the
  name of the category and of the upstream method, so the model has one function of each
  family, with the category as its first argument, and the objects indexed by the
  category name (\<open>this.lastUpdate[type]\<close>) are functions on \<open>category\<close>. The lines
  that only write to the console and to the log file are left out.
\<close>

subsection \<open>Records, keys and the JavaScript Map\<close>

datatype category = Tags | Correspondents | DocumentTypes

text \<open>An id is a number or a string; a \<open>Map\<close> tells \<open>1\<close> from \<open>"1"\<close>.\<close>

datatype key = NumId int | StrId string

record item =
  id' :: key
  name :: string

text \<open>What a rejected upstream call throws: an \<open>Error\<close> with its message.\<close>

datatype error = Error string

text \<open>
  A \<open>Map\<close> iterates in insertion order, and \<open>set\<close> on a key that is present replaces
  the value where it stands: an association list, the oldest key first.
\<close>

type_synonym jsMap = "(key \<times> item) list"

fun map_set :: "key \<Rightarrow> item \<Rightarrow> jsMap \<Rightarrow> jsMap" where
  "map_set k v [] = [(k, v)]"
| "map_set k v ((k', v') # m) =
     (if k' = k then (k, v) # m else (k', v') # map_set k v m)"

definition map_get :: "jsMap \<Rightarrow> key \<Rightarrow> item option" where
  "map_get m k = map_of m k"

text \<open>\<open>Array.from(m.values())\<close> and \<open>m.size\<close>.\<close>

definition map_values :: "jsMap \<Rightarrow> item list" where
  "map_values m = map snd m"

definition map_size :: "jsMap \<Rightarrow> nat" where
  "map_size m = length m"

text \<open>\<open>tags.forEach(tag => { this.tags.set(tag.id, tag); })\<close>\<close>

definition populate :: "item list \<Rightarrow> jsMap \<Rightarrow> jsMap" where
  "populate tags m = fold (\<lambda>tag. map_set (id' tag) tag) tags m"

subsection \<open>The state of the cache\<close>

text \<open>
  Times are the integers of \<open>Date.now()\<close> (milliseconds); \<open>None\<close> is \<open>null\<close>.
  \<open>CACHE_TTL\<close> is what the constructor parsed from the environment; the model takes it
  as an integer (a text that \<open>parseInt\<close> turns into \<open>NaN\<close> is left out).
\<close>

record metadataCache =
  entries :: "category \<Rightarrow> jsMap"
  lastUpdate :: "category \<Rightarrow> int option"
  hits :: "category \<Rightarrow> nat"
  misses :: "category \<Rightarrow> nat"
  refreshes :: "category \<Rightarrow> nat"
  CACHE_TTL :: int

definition constructor :: "int \<Rightarrow> metadataCache" where
  "constructor ttl =
     \<lparr> entries = (\<lambda>_. []),
       lastUpdate = (\<lambda>_. None),
       hits = (\<lambda>_. 0),
       misses = (\<lambda>_. 0),
       refreshes = (\<lambda>_. 0),
       CACHE_TTL = ttl \<rparr>"

text \<open>
  \<open>_isCacheValid(type)\<close>, with the reading of the clock as an argument. The test
  \<open>!lastUpdate\<close> holds of \<open>null\<close> and of the number \<open>0\<close>.
\<close>

definition isCacheValid :: "category \<Rightarrow> int \<Rightarrow> metadataCache \<Rightarrow> bool" where
  "isCacheValid type now s =
     (case lastUpdate s type of
        None \<Rightarrow> False
      | Some t \<Rightarrow> if t = 0 then False else now - t < CACHE_TTL s)"

text \<open>
  \<open>getCacheAge(type)\<close>: \<open>None\<close> is the text \<open>Never\<close>, \<open>Some (m, s)\<close> the text
  \<open>${m}m ${s}s\<close>. \<open>%\<close> is the remainder that keeps the sign of the dividend.
\<close>

definition js_rem :: "int \<Rightarrow> int \<Rightarrow> int" where
  "js_rem a b = (if a < 0 then - ((- a) mod b) else a mod b)"

definition getCacheAge :: "category \<Rightarrow> int \<Rightarrow> metadataCache \<Rightarrow> (int \<times> int) option" where
  "getCacheAge type now s =
     (case lastUpdate s type of
        None \<Rightarrow> None
      | Some t \<Rightarrow>
          if t = 0 then None
          else (let age = now - t in Some (age div 60000, js_rem age 60000 div 1000)))"

text \<open>
  The validity check in the words of the specification (section 4.1): false if
  \<open>lastRefreshAt\<close> is absent, otherwise true iff \<open>now - lastRefreshAt < ttl\<close>. It is
  here to be compared with \<open>isCacheValid\<close>.
\<close>

definition isValid_spec :: "int option \<Rightarrow> int \<Rightarrow> int \<Rightarrow> bool" where
  "isValid_spec lastRefreshAt ttl now =
     (case lastRefreshAt of None \<Rightarrow> False | Some t \<Rightarrow> now - t < ttl)"

subsection \<open>The upstream service\<close>

text \<open>
  \<open>paperlessService\<close> answers \<open>getTags()\<close>, \<open>listCorrespondentsNames()\<close> and
  \<open>listDocumentTypesNames()\<close> with a sequence of records, or throws. The model keeps what
  it will answer and counts the calls of each method. An answer that is not an array
  of records with an \<open>id\<close> is outside the type of the answers.
\<close>

record paperlessService =
  answer :: "category \<Rightarrow> error + item list"
  calls :: "category \<Rightarrow> nat"

definition fetch :: "category \<Rightarrow> paperlessService \<Rightarrow> (error + item list) \<times> paperlessService" where
  "fetch type svc = (answer svc type, svc\<lparr>calls := (calls svc)(type := calls svc type + 1)\<rparr>)"

definition service :: "(category \<Rightarrow> error + item list) \<Rightarrow> paperlessService" where
  "service a = \<lparr> answer = a, calls = (\<lambda>_. 0) \<rparr>"

subsection \<open>refresh and ensure\<close>

text \<open>
  \<open>refreshTags\<close>, \<open>refreshCorrespondents\<close>, \<open>refreshDocumentTypes\<close>, run without
  another operation in between: \<open>now\<close> is \<open>Date.now()\<close> once upstream has answered.
  The counter is incremented before the call; on an answer the Map is cleared, filled
  from the answer and the clock is stored; a rejected call is rethrown from the
  \<open>catch\<close> block, after the log lines.
\<close>

definition refresh ::
  "category \<Rightarrow> paperlessService \<Rightarrow> int \<Rightarrow> metadataCache
     \<Rightarrow> (error + item list) \<times> metadataCache \<times> paperlessService" where
  "refresh type svc now s =
     (let s1 = s\<lparr>refreshes := (refreshes s)(type := refreshes s type + 1)\<rparr>;
          (r, svc') = fetch type svc
      in case r of
           Inl e \<Rightarrow> (Inl e, s1, svc')
         | Inr tags \<Rightarrow>
             (let s2 = s1\<lparr>entries := (entries s1)(type := [])\<rparr>;
                  s3 = s2\<lparr>entries := (entries s2)(type := populate tags (entries s2 type))\<rparr>;
                  s4 = s3\<lparr>lastUpdate := (lastUpdate s3)(type := Some now)\<rparr>
              in (Inr (map_values (entries s4 type)), s4, svc')))"

text \<open>
  \<open>ensureTags\<close>, \<open>ensureCorrespondents\<close>, \<open>ensureDocumentTypes\<close>: \<open>now\<close> is the clock
  at the check, \<open>now'\<close> the clock once upstream has answered.
\<close>

definition ensure ::
  "category \<Rightarrow> paperlessService \<Rightarrow> int \<Rightarrow> int \<Rightarrow> metadataCache
     \<Rightarrow> (error + item list) \<times> metadataCache \<times> paperlessService" where
  "ensure type svc now now' s =
     (if isCacheValid type now s \<and> map_size (entries s type) > 0 then
        (Inr (map_values (entries s type)),
         s\<lparr>hits := (hits s)(type := hits s type + 1)\<rparr>, svc)
      else
        (let s1 = s\<lparr>misses := (misses s)(type := misses s type + 1)\<rparr>;
             (r, s2, svc') = refresh type svc now' s1
         in case r of
              Inl e \<Rightarrow> (Inl e, s2, svc')
            | Inr _ \<Rightarrow> (Inr (map_values (entries s2 type)), s2, svc')))"

definition ensureTags where "ensureTags = ensure Tags"
definition ensureCorrespondents where "ensureCorrespondents = ensure Correspondents"
definition ensureDocumentTypes where "ensureDocumentTypes = ensure DocumentTypes"
definition refreshTags where "refreshTags = refresh Tags"
definition refreshCorrespondents where "refreshCorrespondents = refresh Correspondents"
definition refreshDocumentTypes where "refreshDocumentTypes = refresh DocumentTypes"

text \<open>
  \<open>refreshAll\<close>: \<open>Promise.all\<close> over the three refreshes, started in this order; each
  works on fields of its own and reads the clock when its own answer has come. All three
  run to their end whatever the others do. \<open>Promise.all\<close> rejects with the rejection that
  arrives first; the model reports the first in the order of the calls.
\<close>

definition refreshAll ::
  "paperlessService \<Rightarrow> (category \<Rightarrow> int) \<Rightarrow> metadataCache
     \<Rightarrow> (error + bool) \<times> metadataCache \<times> paperlessService" where
  "refreshAll svc now s =
     (let (r1, s1, svc1) = refresh Tags svc (now Tags) s;
          (r2, s2, svc2) = refresh Correspondents svc1 (now Correspondents) s1;
          (r3, s3, svc3) = refresh DocumentTypes svc2 (now DocumentTypes) s2
      in (case r1 of
            Inl e \<Rightarrow> Inl e
          | Inr _ \<Rightarrow>
              (case r2 of
                 Inl e \<Rightarrow> Inl e
               | Inr _ \<Rightarrow> (case r3 of Inl e \<Rightarrow> Inl e | Inr _ \<Rightarrow> Inr True)),
          s3, svc3))"

subsection \<open>clearAll, the add methods, the statistics\<close>

definition clearAll :: "metadataCache \<Rightarrow> metadataCache" where
  "clearAll s =
     (let s1 = s\<lparr>entries := (entries s)(Tags := [])\<rparr>;
          s2 = s1\<lparr>entries := (entries s1)(Correspondents := [])\<rparr>;
          s3 = s2\<lparr>entries := (entries s2)(DocumentTypes := [])\<rparr>;
          s4 = s3\<lparr>lastUpdate := (lastUpdate s3)(Tags := None)\<rparr>;
          s5 = s4\<lparr>lastUpdate := (lastUpdate s4)(Correspondents := None)\<rparr>
      in s5\<lparr>lastUpdate := (lastUpdate s5)(DocumentTypes := None)\<rparr>)"

text \<open>\<open>addTag\<close>, \<open>addCorrespondent\<close>, \<open>addDocumentType\<close>\<close>

definition addOne :: "category \<Rightarrow> item \<Rightarrow> metadataCache \<Rightarrow> metadataCache" where
  "addOne type r s = s\<lparr>entries := (entries s)(type := map_set (id' r) r (entries s type))\<rparr>"

definition addTag where "addTag = addOne Tags"
definition addCorrespondent where "addCorrespondent = addOne Correspondents"
definition addDocumentType where "addDocumentType = addOne DocumentTypes"

definition resetStats :: "metadataCache \<Rightarrow> metadataCache" where
  "resetStats s = s\<lparr>hits := (\<lambda>_. 0), misses := (\<lambda>_. 0), refreshes := (\<lambda>_. 0)\<rparr>"

text \<open>
  The object that \<open>getStats()\<close> returns. Numbers are exact rationals here, not doubles.
  \<open>x.toFixed(2)\<close> is the integer \<open>n\<close> with \<open>n / 100\<close> nearest to \<open>x\<close>, the larger one of
  two; \<open>hitRate\<close> holds this \<open>n\<close>, the hundredths of a percent that the text before the
  \<open>%\<close> sign shows (\<open>0\<close> for the text \<open>0%\<close> of a cache that was never asked).
\<close>

record categoryStats =
  size' :: nat
  lastUpdate' :: "int option"
  age :: "(int \<times> int) option"
  valid :: bool
  hits' :: nat
  misses' :: nat
  refreshes' :: nat

record overallStats =
  totalHits :: nat
  totalMisses :: nat
  totalRequests :: nat
  hitRate :: int
  cacheTTL :: rat

record statsReport =
  byCategory :: "category \<Rightarrow> categoryStats"
  overall :: overallStats

definition toFixed2 :: "rat \<Rightarrow> int" where
  "toFixed2 x = \<lfloor>x * 100 + 1 / 2\<rfloor>"

definition getStats :: "int \<Rightarrow> metadataCache \<Rightarrow> statsReport" where
  "getStats now s =
     (let totalHits = hits s Tags + hits s Correspondents + hits s DocumentTypes;
          totalMisses = misses s Tags + misses s Correspondents + misses s DocumentTypes;
          totalRequests = totalHits + totalMisses;
          hitRate = (if totalRequests > 0
                     then toFixed2 (of_nat totalHits / of_nat totalRequests * 100)
                     else 0)
      in \<lparr> byCategory = (\<lambda>type.
             \<lparr> size' = map_size (entries s type),
               lastUpdate' = lastUpdate s type,
               age = getCacheAge type now s,
               valid = isCacheValid type now s,
               hits' = hits s type,
               misses' = misses s type,
               refreshes' = refreshes s type \<rparr>),
           overall =
             \<lparr> totalHits = totalHits,
               totalMisses = totalMisses,
               totalRequests = totalRequests,
               hitRate = hitRate,
               cacheTTL = of_int (CACHE_TTL s) / 60000 \<rparr> \<rparr>)"

subsection \<open>Sequences of calls\<close>

text \<open>
  A call of a public method, with what upstream answers if it is asked and the readings
  of the clock. \<open>exec\<close> runs one call on the cache and the service, \<open>run\<close> a sequence.
\<close>

datatype op =
    Ensure category "error + item list" int int
  | Refresh category "error + item list" int
  | RefreshAll "category \<Rightarrow> error + item list" "category \<Rightarrow> int"
  | ClearAll
  | AddOne category item
  | GetStats int
  | ResetStats

type_synonym world = "metadataCache \<times> paperlessService"

fun exec :: "op \<Rightarrow> world \<Rightarrow> world" where
  "exec (Ensure type a now now') (s, svc) = snd (ensure type (svc\<lparr>answer := (\<lambda>_. a)\<rparr>) now now' s)"
| "exec (Refresh type a now) (s, svc) = snd (refresh type (svc\<lparr>answer := (\<lambda>_. a)\<rparr>) now s)"
| "exec (RefreshAll a now) (s, svc) = snd (refreshAll (svc\<lparr>answer := a\<rparr>) now s)"
| "exec ClearAll (s, svc) = (clearAll s, svc)"
| "exec (AddOne type r) (s, svc) = (addOne type r s, svc)"
| "exec (GetStats now) (s, svc) = (s, svc)"
| "exec ResetStats (s, svc) = (resetStats s, svc)"

definition run :: "op list \<Rightarrow> world \<Rightarrow> world" where
  "run ops w = fold exec ops w"

definition start :: "int \<Rightarrow> world" where
  "start ttl = (constructor ttl, service (\<lambda>_. Inr []))"

text \<open>The condition under which \<open>ensure\<close> serves from the cache.\<close>

definition isHit :: "category \<Rightarrow> int \<Rightarrow> metadataCache \<Rightarrow> bool" where
  "isHit type now s = (isCacheValid type now s \<and> map_size (entries s type) > 0)"

text \<open>
  How many calls of \<open>ensure\<close> for a category found it servable (hits) and how many did
  not (misses), counted over a sequence from the conditions alone, not from the counters.
\<close>

fun hitOf :: "category \<Rightarrow> op \<Rightarrow> metadataCache \<Rightarrow> nat" where
  "hitOf c (Ensure type a now now') s = (if type = c \<and> isHit type now s then 1 else 0)"
| "hitOf c _ s = 0"

fun missOf :: "category \<Rightarrow> op \<Rightarrow> metadataCache \<Rightarrow> nat" where
  "missOf c (Ensure type a now now') s = (if type = c \<and> \<not> isHit type now s then 1 else 0)"
| "missOf c _ s = 0"

fun hitCount :: "category \<Rightarrow> op list \<Rightarrow> world \<Rightarrow> nat" where
  "hitCount c [] w = 0"
| "hitCount c (x # ops) w = hitOf c x (fst w) + hitCount c ops (exec x w)"

fun missCount :: "category \<Rightarrow> op list \<Rightarrow> world \<Rightarrow> nat" where
  "missCount c [] w = 0"
| "missCount c (x # ops) w = missOf c x (fst w) + missCount c ops (exec x w)"

definition totalHitCount :: "op list \<Rightarrow> world \<Rightarrow> nat" where
  "totalHitCount ops w =
     hitCount Tags ops w + hitCount Correspondents ops w + hitCount DocumentTypes ops w"

definition totalMissCount :: "op list \<Rightarrow> world \<Rightarrow> nat" where
  "totalMissCount ops w =
     missCount Tags ops w + missCount Correspondents ops w + missCount DocumentTypes ops w"

definition isResetStats :: "op \<Rightarrow> bool" where
  "isResetStats x = (case x of ResetStats \<Rightarrow> True | _ \<Rightarrow> False)"

text \<open>
  Whether a call refreshes a category with success (upstream is asked and answers with
  records), and whether that has happened since the last \<open>clearAll\<close>; the same for a
  record put by an add method.
\<close>

definition isOk :: "error + item list \<Rightarrow> bool" where
  "isOk a = (case a of Inl _ \<Rightarrow> False | Inr _ \<Rightarrow> True)"

fun succeeds :: "category \<Rightarrow> op \<Rightarrow> metadataCache \<Rightarrow> bool" where
  "succeeds c (Ensure type a now now') s = (type = c \<and> \<not> isHit type now s \<and> isOk a)"
| "succeeds c (Refresh type a now) s = (type = c \<and> isOk a)"
| "succeeds c (RefreshAll a now) s = isOk (a c)"
| "succeeds c _ s = False"

fun adds :: "category \<Rightarrow> op \<Rightarrow> bool" where
  "adds c (AddOne type r) = (type = c)"
| "adds c _ = False"

fun clears :: "op \<Rightarrow> bool" where
  "clears ClearAll = True"
| "clears _ = False"

fun refreshedSinceClear :: "category \<Rightarrow> op list \<Rightarrow> world \<Rightarrow> bool \<Rightarrow> bool" where
  "refreshedSinceClear c [] w b = b"
| "refreshedSinceClear c (x # ops) w b =
     refreshedSinceClear c ops (exec x w)
       (if clears x then False else (b \<or> succeeds c x (fst w)))"

fun addedSinceClear :: "category \<Rightarrow> op list \<Rightarrow> bool \<Rightarrow> bool" where
  "addedSinceClear c [] b = b"
| "addedSinceClear c (x # ops) b =
     addedSinceClear c ops (if clears x then False else (b \<or> adds c x))"

text \<open>
  What holds of a category along a sequence of calls, with \<open>b\<close> for "refreshed with
  success since the last clearAll" and \<open>a\<close> for "a record was added since then".
\<close>

definition held :: "category \<Rightarrow> world \<Rightarrow> bool \<Rightarrow> bool \<Rightarrow> bool" where
  "held c w b a =
     ((lastUpdate (fst w) c = None) = (\<not> b) \<and> (\<not> b \<and> \<not> a \<longrightarrow> entries (fst w) c = []))"

subsection \<open>Calls that overlap\<close>

text \<open>
  An \<open>async\<close> method runs without interruption up to an \<open>await\<close>, and again from the
  moment the awaited promise is settled up to the next \<open>await\<close> or to its end; other
  code may run in between. The system keeps, besides the cache, the number of requests
  sent to upstream and three queues, oldest first: the requests in flight of refresh
  methods that were called directly (\<open>inflight\<close>), the requests in flight of refresh
  methods that an ensure method called and awaits (\<open>waiting\<close>), and the ensure methods
  whose refresh has ended and that have not yet gone on (\<open>resuming\<close>), each with the
  error if its refresh threw.

  \<open>refreshCall\<close> is a refresh method, called directly, up to the \<open>await\<close> of the upstream
  call: the counter is incremented and the request is sent. \<open>settle\<close> is the rest of such
  a call once upstream has answered the request at position \<open>i\<close>; it returns what the
  refresh method returns to its caller.

  \<open>ensureCall\<close> is an ensure method up to its \<open>await\<close>: on a hit it returns at once,
  otherwise it counts the miss and calls the refresh method, which counts the refresh
  and sends the request. \<open>settleWaiting\<close> is the rest of that refresh method once
  upstream has answered (\<open>refreshRest\<close>); the ensure method does not go on in the same
  step. \<open>resume\<close> is the rest of the ensure method: it throws what its refresh threw, or
  returns the values that the Map holds at that moment.
\<close>

record system =
  cache :: metadataCache
  issued :: "category \<Rightarrow> nat"
  inflight :: "category list"
  waiting :: "category list"
  resuming :: "(category \<times> error option) list"

definition boot :: "int \<Rightarrow> system" where
  "boot ttl =
     \<lparr> cache = constructor ttl, issued = (\<lambda>_. 0), inflight = [], waiting = [], resuming = [] \<rparr>"

definition refreshCall :: "category \<Rightarrow> system \<Rightarrow> system" where
  "refreshCall type y =
     y\<lparr> cache := (cache y)\<lparr>refreshes := (refreshes (cache y))(type := refreshes (cache y) type + 1)\<rparr>,
        issued := (issued y)(type := issued y type + 1),
        inflight := inflight y @ [type] \<rparr>"

definition settle ::
  "nat \<Rightarrow> error + item list \<Rightarrow> int \<Rightarrow> system \<Rightarrow> (error + item list) option \<times> system" where
  "settle i r now y =
     (if i < length (inflight y) then
        (let type = inflight y ! i;
             y1 = y\<lparr>inflight := take i (inflight y) @ drop (Suc i) (inflight y)\<rparr>;
             s1 = cache y1
         in case r of
              Inl e \<Rightarrow> (Some (Inl e), y1)
            | Inr tags \<Rightarrow>
                (let s2 = s1\<lparr>entries := (entries s1)(type := [])\<rparr>;
                     s3 = s2\<lparr>entries := (entries s2)(type := populate tags (entries s2 type))\<rparr>;
                     s4 = s3\<lparr>lastUpdate := (lastUpdate s3)(type := Some now)\<rparr>
                 in (Some (Inr (map_values (entries s4 type))), y1\<lparr>cache := s4\<rparr>)))
      else (None, y))"

definition ensureCall :: "category \<Rightarrow> int \<Rightarrow> system \<Rightarrow> item list option \<times> system" where
  "ensureCall type now y =
     (let s = cache y in
      if isCacheValid type now s \<and> map_size (entries s type) > 0 then
        (Some (map_values (entries s type)),
         y\<lparr>cache := s\<lparr>hits := (hits s)(type := hits s type + 1)\<rparr>\<rparr>)
      else
        (let s1 = s\<lparr>misses := (misses s)(type := misses s type + 1)\<rparr>;
             s2 = s1\<lparr>refreshes := (refreshes s1)(type := refreshes s1 type + 1)\<rparr>
         in (None,
             y\<lparr> cache := s2,
                issued := (issued y)(type := issued y type + 1),
                waiting := waiting y @ [type] \<rparr>)))"

definition refreshRest ::
  "category \<Rightarrow> error + item list \<Rightarrow> int \<Rightarrow> metadataCache \<Rightarrow> (error + item list) \<times> metadataCache" where
  "refreshRest type r now s1 =
     (case r of
        Inl e \<Rightarrow> (Inl e, s1)
      | Inr tags \<Rightarrow>
          (let s2 = s1\<lparr>entries := (entries s1)(type := [])\<rparr>;
               s3 = s2\<lparr>entries := (entries s2)(type := populate tags (entries s2 type))\<rparr>;
               s4 = s3\<lparr>lastUpdate := (lastUpdate s3)(type := Some now)\<rparr>
           in (Inr (map_values (entries s4 type)), s4)))"

definition settleWaiting :: "nat \<Rightarrow> error + item list \<Rightarrow> int \<Rightarrow> system \<Rightarrow> system" where
  "settleWaiting i r now y =
     (if i < length (waiting y) then
        (let type = waiting y ! i;
             (res, s') = refreshRest type r now (cache y)
         in y\<lparr> cache := s',
               waiting := take i (waiting y) @ drop (Suc i) (waiting y),
               resuming := resuming y @ [(type, case res of Inl e \<Rightarrow> Some e | Inr _ \<Rightarrow> None)] \<rparr>)
      else y)"

definition resume :: "nat \<Rightarrow> system \<Rightarrow> (error + item list) option \<times> system" where
  "resume j y =
     (if j < length (resuming y) then
        (let (type, thrown) = resuming y ! j;
             y1 = y\<lparr>resuming := take j (resuming y) @ drop (Suc j) (resuming y)\<rparr>
         in (Some (case thrown of
                     Some e \<Rightarrow> Inl e
                   | None \<Rightarrow> Inr (map_values (entries (cache y) type))),
             y1))
      else (None, y))"

definition ensureCalls :: "category \<Rightarrow> int list \<Rightarrow> system \<Rightarrow> system" where
  "ensureCalls type nows y = fold (\<lambda>now z. snd (ensureCall type now z)) nows y"

text \<open>
  What happens after the calls: upstream answers a request that an ensure method waits
  for, or an ensure method whose refresh has ended goes on. \<open>play\<close> runs such steps in
  the given order and collects what the ensure methods return or throw.
\<close>

datatype act = Settled nat "error + item list" int | Resumed nat

fun play :: "act list \<Rightarrow> system \<Rightarrow> (error + item list) list \<times> system" where
  "play [] y = ([], y)"
| "play (Settled i r now # acts) y = play acts (settleWaiting i r now y)"
| "play (Resumed j # acts) y =
     (case resume j y of
        (None, y') \<Rightarrow> play acts y'
      | (Some out, y') \<Rightarrow> (case play acts y' of (outs, z) \<Rightarrow> (out # outs, z)))"

fun answersWith :: "item list \<Rightarrow> act \<Rightarrow> bool" where
  "answersWith R (Settled i r now) = (r = Inr R)"
| "answersWith R (Resumed j) = True"

text \<open>
  \<open>Date.now()\<close> is the number of milliseconds since the start of 1970: a running program
  does not read \<open>0\<close>.
\<close>

fun clockNonzero :: "op \<Rightarrow> bool" where
  "clockNonzero (Ensure type a now now') = (now \<noteq> 0 \<and> now' \<noteq> 0)"
| "clockNonzero (Refresh type a now) = (now \<noteq> 0)"
| "clockNonzero (RefreshAll a now) =
     (now Tags \<noteq> 0 \<and> now Correspondents \<noteq> 0 \<and> now DocumentTypes \<noteq> 0)"
| "clockNonzero (GetStats now) = (now \<noteq> 0)"
| "clockNonzero _ = True"

text \<open>
  While only requests of one category wait and every answer carries the records R, an
  ensure method that goes on finds the Map built from R.
\<close>

definition steady :: "category \<Rightarrow> item list \<Rightarrow> system \<Rightarrow> bool" where
  "steady type R z =
     (set (waiting z) \<subseteq> {type} \<and> set (resuming z) \<subseteq> {(type, None)} \<and>
      (resuming z = [] \<or> entries (cache z) type = populate R []))"

subsection \<open>Sample data\<close>

definition tag1 :: item where "tag1 = \<lparr> id' = NumId 1, name = ''invoice'' \<rparr>"
definition tag2 :: item where "tag2 = \<lparr> id' = NumId 2, name = ''receipt'' \<rparr>"
definition tag3 :: item where "tag3 = \<lparr> id' = NumId 3, name = ''contract'' \<rparr>"
definition tag4 :: item where "tag4 = \<lparr> id' = NumId 4, name = ''letter'' \<rparr>"

text \<open>An upstream that answers every method with the same records, or rejects every call.\<close>

definition answering :: "item list \<Rightarrow> paperlessService" where
  "answering R = service (\<lambda>_. Inr R)"

definition failing :: "string \<Rightarrow> paperlessService" where
  "failing msg = service (\<lambda>_. Inl (Error msg))"

section \<open>Facts about the Map and the single calls\<close>

lemma map_of_map_set: "map_of (map_set k v m) = (map_of m)(k \<mapsto> v)"
  by (induction m) (auto simp: fun_eq_iff)

lemma map_set_fresh: "k \<notin> set (map fst m) \<Longrightarrow> map_set k v m = m @ [(k, v)]"
  by (induction m) auto

lemma keys_map_set_list:
  "map fst (map_set k v m) = (if k \<in> set (map fst m) then map fst m else map fst m @ [k])"
  by (induction k v m rule: map_set.induct) simp_all

lemma keys_map_set: "set (map fst (map_set k v m)) = insert k (set (map fst m))"
  by (simp add: keys_map_set_list insert_absorb)

lemma map_set_not_Nil: "map_set k v m \<noteq> []"
  by (cases m) (auto split: if_splits)

lemma map_set_member: "(k, v) \<in> set (map_set k v m)"
  by (induction m) auto

lemma length_map_set:
  "length (map_set k v m) = (if k \<in> set (map fst m) then length m else Suc (length m))"
  by (induction k v m rule: map_set.induct) simp_all

lemma distinct_map_set: "distinct (map fst m) \<Longrightarrow> distinct (map fst (map_set k v m))"
  by (simp add: keys_map_set_list)

lemma map_of_populate:
  "map_of (populate R m) = map_of m ++ map_of (rev (map (\<lambda>x. (id' x, x)) R))"
proof (induction R arbitrary: m)
  case Nil
  show ?case by (simp add: populate_def)
next
  case (Cons r R)
  have "populate (r # R) m = populate R (map_set (id' r) r m)"
    by (simp add: populate_def)
  then show ?case
    by (simp add: Cons.IH map_of_map_set map_add_upd_left fun_eq_iff map_add_def split: option.splits)
qed

lemma keys_populate: "set (map fst (populate R m)) = set (map fst m) \<union> set (map id' R)"
proof (induction R arbitrary: m)
  case Nil
  show ?case by (simp add: populate_def)
next
  case (Cons r R)
  have "populate (r # R) m = populate R (map_set (id' r) r m)"
    by (simp add: populate_def)
  then show ?case
    by (simp add: Cons.IH keys_map_set del: set_map)
qed

lemma populate_distinct:
  "distinct (map fst m @ map id' R) \<Longrightarrow> populate R m = m @ map (\<lambda>x. (id' x, x)) R"
proof (induction R arbitrary: m)
  case Nil
  show ?case by (simp add: populate_def)
next
  case (Cons r R)
  have step: "populate (r # R) m = populate R (map_set (id' r) r m)"
    by (simp add: populate_def)
  from Cons.prems have fresh: "id' r \<notin> set (map fst m)"
    by auto
  then have ms: "map_set (id' r) r m = m @ [(id' r, r)]"
    by (rule map_set_fresh)
  from Cons.prems have "distinct (map fst (m @ [(id' r, r)]) @ map id' R)"
    by auto
  then have "populate R (m @ [(id' r, r)]) = (m @ [(id' r, r)]) @ map (\<lambda>x. (id' x, x)) R"
    by (rule Cons.IH)
  with step ms show ?case by simp
qed

lemma values_populate_distinct:
  "distinct (map id' R) \<Longrightarrow> map_values (populate R []) = R"
  using populate_distinct [of "[]" R] by (simp add: map_values_def comp_def)

lemma distinct_populate: "distinct (map fst m) \<Longrightarrow> distinct (map fst (populate R m))"
proof (induction R arbitrary: m)
  case Nil
  then show ?case by (simp add: populate_def)
next
  case (Cons r R)
  have "populate (r # R) m = populate R (map_set (id' r) r m)"
    by (simp add: populate_def)
  with Cons show ?case by (simp add: distinct_map_set)
qed

lemma refresh_Inl:
  "answer svc type = Inl e \<Longrightarrow>
     refresh type svc now s =
       (Inl e,
        s\<lparr>refreshes := (refreshes s)(type := refreshes s type + 1)\<rparr>,
        svc\<lparr>calls := (calls svc)(type := calls svc type + 1)\<rparr>)"
  by (simp add: refresh_def fetch_def)

lemma refresh_Inr:
  "answer svc type = Inr R \<Longrightarrow>
     refresh type svc now s =
       (Inr (map_values (populate R [])),
        s\<lparr>refreshes := (refreshes s)(type := refreshes s type + 1),
          entries := (entries s)(type := populate R []),
          lastUpdate := (lastUpdate s)(type := Some now)\<rparr>,
        svc\<lparr>calls := (calls svc)(type := calls svc type + 1)\<rparr>)"
  by (simp add: refresh_def fetch_def)

lemma ensure_hit:
  "isHit type now s \<Longrightarrow>
     ensure type svc now now' s =
       (Inr (map_values (entries s type)), s\<lparr>hits := (hits s)(type := hits s type + 1)\<rparr>, svc)"
  by (simp add: ensure_def isHit_def)

lemma ensure_miss:
  "\<not> isHit type now s \<Longrightarrow>
     ensure type svc now now' s =
       refresh type svc now' (s\<lparr>misses := (misses s)(type := misses s type + 1)\<rparr>)"
proof (cases "answer svc type")
  case (Inl e)
  assume "\<not> isHit type now s"
  then have "\<not> (isCacheValid type now s \<and> 0 < map_size (entries s type))"
    by (simp add: isHit_def)
  then show ?thesis
    using Inl by (simp add: ensure_def refresh_Inl del: de_Morgan_conj)
next
  case (Inr R)
  assume "\<not> isHit type now s"
  then have "\<not> (isCacheValid type now s \<and> 0 < map_size (entries s type))"
    by (simp add: isHit_def)
  then show ?thesis
    using Inr by (simp add: ensure_def refresh_Inr del: de_Morgan_conj)
qed

lemma clearAll_eq:
  "clearAll s = s\<lparr>entries := (\<lambda>_. []), lastUpdate := (\<lambda>_. None)\<rparr>"
proof -
  have e: "(entries s)(Tags := [], Correspondents := [], DocumentTypes := []) = (\<lambda>_. [])"
  proof
    fix c show "((entries s)(Tags := [], Correspondents := [], DocumentTypes := [])) c = []"
      by (cases c) simp_all
  qed
  have l: "(lastUpdate s)(Tags := None, Correspondents := None, DocumentTypes := None) = (\<lambda>_. None)"
  proof
    fix c show "((lastUpdate s)(Tags := None, Correspondents := None, DocumentTypes := None)) c = None"
      by (cases c) simp_all
  qed
  show ?thesis by (simp add: clearAll_def e l)
qed

lemma isCacheValid_absent: "lastUpdate s type = None \<Longrightarrow> \<not> isCacheValid type now s"
  by (simp add: isCacheValid_def)

lemma isCacheValid_present:
  "lastUpdate s type = Some t \<Longrightarrow> t \<noteq> 0 \<Longrightarrow> isCacheValid type now s = (now - t < CACHE_TTL s)"
  by (simp add: isCacheValid_def)

lemma isCacheValid_zero_ttl:
  "CACHE_TTL s = 0 \<Longrightarrow> lastUpdate s type = Some t \<Longrightarrow> t \<le> now \<Longrightarrow> \<not> isCacheValid type now s"
  by (simp add: isCacheValid_def)

lemma run_Nil: "run [] w = w"
  by (simp add: run_def)

lemma run_Cons: "run (x # ops) w = run ops (exec x w)"
  by (simp add: run_def)

lemma run_append: "run (xs @ ys) w = run ys (run xs w)"
  by (simp add: run_def)

lemma refresh_counters:
  "hits (fst (snd (refresh type svc now s))) = hits s \<and>
   misses (fst (snd (refresh type svc now s))) = misses s"
  by (cases "answer svc type") (simp_all add: refresh_Inl refresh_Inr)

lemma refresh_answer: "answer (snd (snd (refresh type svc now s))) = answer svc"
  by (cases "answer svc type") (simp_all add: refresh_Inl refresh_Inr)

lemma refreshAll_counters:
  "hits (fst (snd (refreshAll svc now s))) = hits s \<and>
   misses (fst (snd (refreshAll svc now s))) = misses s"
  by (simp add: refreshAll_def refresh_counters split: prod.splits)
     (metis refresh_counters fst_conv snd_conv)

lemma ensure_counters:
  "hits (fst (snd (ensure type svc now now' s))) c =
     hits s c + (if type = c \<and> isHit type now s then 1 else 0) \<and>
   misses (fst (snd (ensure type svc now now' s))) c =
     misses s c + (if type = c \<and> \<not> isHit type now s then 1 else 0)"
proof (cases "isHit type now s")
  case True
  then show ?thesis by (simp add: ensure_hit)
next
  case False
  then show ?thesis by (simp add: ensure_miss refresh_counters)
qed

lemma exec_counters:
  "\<not> isResetStats x \<Longrightarrow>
     hits (fst (exec x w)) c = hits (fst w) c + hitOf c x (fst w) \<and>
     misses (fst (exec x w)) c = misses (fst w) c + missOf c x (fst w)"
proof (cases w)
  case (Pair s svc)
  assume nr: "\<not> isResetStats x"
  show ?thesis
  proof (cases x)
    case (Ensure type a now now')
    then show ?thesis using Pair ensure_counters [of type _ now now' s c] by simp
  next
    case (Refresh type a now)
    then show ?thesis using Pair by (simp add: refresh_counters)
  next
    case (RefreshAll a now)
    then show ?thesis using Pair by (simp add: refreshAll_counters)
  next
    case ClearAll
    then show ?thesis using Pair by (simp add: clearAll_eq)
  next
    case (AddOne type r)
    then show ?thesis using Pair by (simp add: addOne_def)
  next
    case (GetStats now)
    then show ?thesis using Pair by simp
  next
    case ResetStats
    with nr show ?thesis by (simp add: isResetStats_def)
  qed
qed

lemma run_counters:
  "\<forall>x \<in> set ops. \<not> isResetStats x \<Longrightarrow>
     hits (fst (run ops w)) c = hits (fst w) c + hitCount c ops w \<and>
     misses (fst (run ops w)) c = misses (fst w) c + missCount c ops w"
proof (induction ops arbitrary: w)
  case Nil
  show ?case by (simp add: run_Nil)
next
  case (Cons x ops)
  from Cons.prems have x: "\<not> isResetStats x" and rest: "\<forall>x \<in> set ops. \<not> isResetStats x"
    by simp_all
  from Cons.IH [OF rest, of "exec x w"] exec_counters [OF x, of w c]
  show ?case by (simp add: run_Cons)
qed

lemma counters_after_reset:
  assumes "pre = [] \<or> isResetStats (last pre)"
  shows "hits (fst (run pre (start ttl))) c = 0 \<and> misses (fst (run pre (start ttl))) c = 0"
proof (cases "pre = []")
  case True
  then show ?thesis by (simp add: run_Nil start_def constructor_def)
next
  case False
  with assms have "isResetStats (last pre)" by simp
  then have l: "last pre = ResetStats"
    by (cases "last pre") (simp_all add: isResetStats_def)
  from False have "pre = butlast pre @ [last pre]" by simp
  then have "run pre (start ttl) = exec ResetStats (run (butlast pre) (start ttl))"
    using l by (metis run_append run_Cons run_Nil)
  then show ?thesis
    by (cases "run (butlast pre) (start ttl)") (simp add: resetStats_def)
qed

lemma toFixed2_near: "\<bar>of_int (toFixed2 x) / 100 - x\<bar> \<le> 1 / 200"
proof -
  let ?n = "toFixed2 x"
  have lo: "of_int ?n \<le> x * 100 + 1 / 2"
    unfolding toFixed2_def by (rule of_int_floor_le)
  have hi: "x * 100 + 1 / 2 < of_int ?n + 1"
    unfolding toFixed2_def by (rule floor_correct [THEN conjunct2, simplified])
  have "of_int ?n / 100 - x \<le> 1 / 200" using lo by simp
  moreover have "x - of_int ?n / 100 \<le> 1 / 200" using hi by simp
  ultimately show ?thesis by (simp only: abs_le_iff minus_diff_eq)
qed

lemma split_at_last_reset:
  "\<exists>pre post. ops = pre @ post \<and> (pre = [] \<or> isResetStats (last pre)) \<and>
     (\<forall>x \<in> set post. \<not> isResetStats x)"
proof (induction ops rule: rev_induct)
  case Nil
  show ?case by simp
next
  case (snoc x ops)
  show ?case
  proof (cases "isResetStats x")
    case True
    then have "ops @ [x] = (ops @ [x]) @ [] \<and> isResetStats (last (ops @ [x]))" by simp
    then show ?thesis by (metis empty_iff list.set(1))
  next
    case False
    from snoc obtain pre post where "ops = pre @ post"
      and "pre = [] \<or> isResetStats (last pre)" and "\<forall>x \<in> set post. \<not> isResetStats x"
      by blast
    with False have "ops @ [x] = pre @ (post @ [x]) \<and> (pre = [] \<or> isResetStats (last pre)) \<and>
      (\<forall>y \<in> set (post @ [x]). \<not> isResetStats y)"
      by simp
    then show ?thesis by blast
  qed
qed


lemma refresh_fields:
  "lastUpdate (fst (snd (refresh type svc now s))) c =
     (if c = type \<and> isOk (answer svc type) then Some now else lastUpdate s c) \<and>
   (\<not> (c = type \<and> isOk (answer svc type)) \<longrightarrow>
      entries (fst (snd (refresh type svc now s))) c = entries s c)"
  by (cases "answer svc type") (simp_all add: refresh_Inl refresh_Inr isOk_def)

lemma ensure_fields:
  "lastUpdate (fst (snd (ensure type svc now now' s))) c =
     (if c = type \<and> \<not> isHit type now s \<and> isOk (answer svc type) then Some now'
      else lastUpdate s c) \<and>
   (\<not> (c = type \<and> \<not> isHit type now s \<and> isOk (answer svc type)) \<longrightarrow>
      entries (fst (snd (ensure type svc now now' s))) c = entries s c)"
proof (cases "isHit type now s")
  case True
  then show ?thesis by (simp add: ensure_hit)
next
  case False
  then show ?thesis
    using refresh_fields [of type svc now' "s\<lparr>misses := (misses s)(type := misses s type + 1)\<rparr>" c]
    by (simp add: ensure_miss)
qed

lemma refreshAll_fields:
  "lastUpdate (fst (snd (refreshAll svc now s))) c =
     (if isOk (answer svc c) then Some (now c) else lastUpdate s c) \<and>
   (\<not> isOk (answer svc c) \<longrightarrow> entries (fst (snd (refreshAll svc now s))) c = entries s c)"
proof -
  obtain r1 s1 svc1 where a: "refresh Tags svc (now Tags) s = (r1, s1, svc1)"
    by (cases "refresh Tags svc (now Tags) s") auto
  obtain r2 s2 svc2 where b: "refresh Correspondents svc1 (now Correspondents) s1 = (r2, s2, svc2)"
    by (cases "refresh Correspondents svc1 (now Correspondents) s1") auto
  obtain r3 s3 svc3 where d: "refresh DocumentTypes svc2 (now DocumentTypes) s2 = (r3, s3, svc3)"
    by (cases "refresh DocumentTypes svc2 (now DocumentTypes) s2") auto
  have all: "fst (snd (refreshAll svc now s)) = s3"
    by (simp add: refreshAll_def a b d)
  have a1: "answer svc1 = answer svc"
    using refresh_answer [of Tags svc "now Tags" s] by (simp add: a)
  have a2: "answer svc2 = answer svc"
    using refresh_answer [of Correspondents svc1 "now Correspondents" s1] by (simp add: b a1)
  have f1: "lastUpdate s1 c = (if c = Tags \<and> isOk (answer svc Tags) then Some (now Tags) else lastUpdate s c) \<and>
            (\<not> (c = Tags \<and> isOk (answer svc Tags)) \<longrightarrow> entries s1 c = entries s c)"
    using refresh_fields [of Tags svc "now Tags" s c] by (simp add: a)
  have f2: "lastUpdate s2 c = (if c = Correspondents \<and> isOk (answer svc Correspondents)
              then Some (now Correspondents) else lastUpdate s1 c) \<and>
            (\<not> (c = Correspondents \<and> isOk (answer svc Correspondents)) \<longrightarrow> entries s2 c = entries s1 c)"
    using refresh_fields [of Correspondents svc1 "now Correspondents" s1 c] by (simp add: b a1)
  have f3: "lastUpdate s3 c = (if c = DocumentTypes \<and> isOk (answer svc DocumentTypes)
              then Some (now DocumentTypes) else lastUpdate s2 c) \<and>
            (\<not> (c = DocumentTypes \<and> isOk (answer svc DocumentTypes)) \<longrightarrow> entries s3 c = entries s2 c)"
    using refresh_fields [of DocumentTypes svc2 "now DocumentTypes" s2 c] by (simp add: d a2)
  show ?thesis
    unfolding all using f1 f2 f3 by (cases c) auto
qed

lemma held_exec:
  assumes "held c w b a"
  shows "held c (exec x w)
           (if clears x then False else (b \<or> succeeds c x (fst w)))
           (if clears x then False else (a \<or> adds c x))"
proof (cases w)
  case (Pair s svc)
  show ?thesis
  proof (cases x)
    case (Ensure type ans now now')
    then show ?thesis
      using assms Pair ensure_fields [of type "svc\<lparr>answer := (\<lambda>_. ans)\<rparr>" now now' s c]
      by (auto simp: held_def)
  next
    case (Refresh type ans now)
    then show ?thesis
      using assms Pair refresh_fields [of type "svc\<lparr>answer := (\<lambda>_. ans)\<rparr>" now s c]
      by (auto simp: held_def)
  next
    case (RefreshAll ans now)
    then show ?thesis
      using assms Pair refreshAll_fields [of "svc\<lparr>answer := ans\<rparr>" now s c]
      by (auto simp: held_def)
  next
    case ClearAll
    then show ?thesis using Pair by (simp add: held_def clearAll_eq)
  next
    case (AddOne type r)
    then show ?thesis using assms Pair by (auto simp: held_def addOne_def)
  next
    case (GetStats now)
    then show ?thesis using assms Pair by (simp add: held_def)
  next
    case ResetStats
    then show ?thesis using assms Pair by (simp add: held_def resetStats_def)
  qed
qed

lemma held_run:
  "held c w b a \<Longrightarrow>
     held c (run ops w) (refreshedSinceClear c ops w b) (addedSinceClear c ops a)"
proof (induction ops arbitrary: w b a)
  case Nil
  then show ?case by (simp add: run_Nil)
next
  case (Cons x ops)
  from held_exec [OF Cons.prems, of x]
  have "held c (exec x w)
           (if clears x then False else (b \<or> succeeds c x (fst w)))
           (if clears x then False else (a \<or> adds c x))" .
  from Cons.IH [OF this] show ?case by (simp add: run_Cons)
qed

lemma held_start: "held c (start ttl) False False"
  by (simp add: held_def start_def constructor_def)

lemma isCacheValid_refines:
  "lastUpdate s type \<noteq> Some 0 \<Longrightarrow>
     isCacheValid type now s = isValid_spec (lastUpdate s type) (CACHE_TTL s) now"
  by (auto simp: isCacheValid_def isValid_spec_def split: option.splits)

lemma zero_ttl_misses:
  "CACHE_TTL s = 0 \<Longrightarrow> \<forall>t. lastUpdate s type = Some t \<longrightarrow> t \<le> now \<Longrightarrow> \<not> isHit type now s"
  by (auto simp: isHit_def isCacheValid_def split: option.splits)

lemma refresh_ttl: "CACHE_TTL (fst (snd (refresh type svc now s))) = CACHE_TTL s"
  by (cases "answer svc type") (simp_all add: refresh_Inl refresh_Inr)

lemma refresh_calls:
  "calls (snd (snd (refresh type svc now s))) = (calls svc)(type := calls svc type + 1)"
  by (cases "answer svc type") (simp_all add: refresh_Inl refresh_Inr)

lemma zero_ttl_two_ensures:
  assumes ttl: "CACHE_TTL s = 0"
    and past: "\<forall>t. lastUpdate s type = Some t \<longrightarrow> t \<le> now1"
    and clock: "now1 \<le> now1'" "now1' \<le> now2"
  shows "calls (snd (run [Ensure type a1 now1 now1', Ensure type a2 now2 now2'] (s, svc))) type =
           calls svc type + 2 \<and>
         misses (fst (run [Ensure type a1 now1 now1', Ensure type a2 now2 now2'] (s, svc))) type =
           misses s type + 2"
proof -
  let ?svc1 = "svc\<lparr>answer := (\<lambda>_. a1)\<rparr>"
  let ?s0 = "s\<lparr>misses := (misses s)(type := misses s type + 1)\<rparr>"
  have m1: "\<not> isHit type now1 s"
    using ttl past by (rule zero_ttl_misses)
  have e1: "exec (Ensure type a1 now1 now1') (s, svc) = snd (refresh type ?svc1 now1' ?s0)"
    by (simp add: ensure_miss [OF m1])
  obtain s1 svc1 where w1: "snd (refresh type ?svc1 now1' ?s0) = (s1, svc1)"
    by (cases "snd (refresh type ?svc1 now1' ?s0)") auto
  have s1: "s1 = fst (snd (refresh type ?svc1 now1' ?s0))"
    and svc1: "svc1 = snd (snd (refresh type ?svc1 now1' ?s0))"
    using w1 by simp_all
  have ttl1: "CACHE_TTL s1 = 0"
    using ttl by (simp add: s1 refresh_ttl)
  have lu1: "\<forall>t. lastUpdate s1 type = Some t \<longrightarrow> t \<le> now2"
    using refresh_fields [of type ?svc1 now1' ?s0 type] past clock
    by (auto simp: s1 split: if_splits)
  have m2: "\<not> isHit type now2 s1"
    using ttl1 lu1 by (rule zero_ttl_misses)
  have c1: "calls svc1 type = calls svc type + 1"
    by (simp add: svc1 refresh_calls)
  have mi1: "misses s1 type = misses s type + 1"
    by (simp add: s1 refresh_counters)
  let ?svc2 = "svc1\<lparr>answer := (\<lambda>_. a2)\<rparr>"
  let ?s1' = "s1\<lparr>misses := (misses s1)(type := misses s1 type + 1)\<rparr>"
  have e2: "exec (Ensure type a2 now2 now2') (s1, svc1) = snd (refresh type ?svc2 now2' ?s1')"
    by (simp add: ensure_miss [OF m2])
  have r: "run [Ensure type a1 now1 now1', Ensure type a2 now2 now2'] (s, svc) =
      snd (refresh type ?svc2 now2' ?s1')"
    by (simp only: run_Cons run_Nil e1 w1 e2)
  show ?thesis
    by (simp add: r refresh_calls refresh_counters c1 mi1)
qed

subsection \<open>Calls that overlap, step by step\<close>

lemma ensureCall_miss:
  "\<not> isHit type now (cache y) \<Longrightarrow>
     ensureCall type now y =
       (None,
        y\<lparr> cache := (cache y)\<lparr>misses := (misses (cache y))(type := misses (cache y) type + 1),
                              refreshes := (refreshes (cache y))(type := refreshes (cache y) type + 1)\<rparr>,
           issued := (issued y)(type := issued y type + 1),
           waiting := waiting y @ [type] \<rparr>)"
  by (simp add: ensureCall_def isHit_def Let_def del: de_Morgan_conj)

lemma ensureCall_hit:
  "isHit type now (cache y) \<Longrightarrow>
     ensureCall type now y =
       (Some (map_values (entries (cache y) type)),
        y\<lparr>cache := (cache y)\<lparr>hits := (hits (cache y))(type := hits (cache y) type + 1)\<rparr>\<rparr>)"
  by (simp add: ensureCall_def isHit_def Let_def)

lemma isHit_fields:
  "entries s' = entries s \<Longrightarrow> lastUpdate s' = lastUpdate s \<Longrightarrow> CACHE_TTL s' = CACHE_TTL s \<Longrightarrow>
     isHit type now s' = isHit type now s"
  by (simp add: isHit_def isCacheValid_def split: option.splits)

lemma ensureCalls_all_miss:
  "\<forall>now \<in> set nows. \<not> isHit type now (cache y) \<Longrightarrow>
     issued (ensureCalls type nows y) = (issued y)(type := issued y type + length nows) \<and>
     waiting (ensureCalls type nows y) = waiting y @ replicate (length nows) type \<and>
     inflight (ensureCalls type nows y) = inflight y \<and>
     resuming (ensureCalls type nows y) = resuming y \<and>
     misses (cache (ensureCalls type nows y)) =
       (misses (cache y))(type := misses (cache y) type + length nows) \<and>
     refreshes (cache (ensureCalls type nows y)) =
       (refreshes (cache y))(type := refreshes (cache y) type + length nows) \<and>
     hits (cache (ensureCalls type nows y)) = hits (cache y) \<and>
     entries (cache (ensureCalls type nows y)) = entries (cache y) \<and>
     lastUpdate (cache (ensureCalls type nows y)) = lastUpdate (cache y) \<and>
     CACHE_TTL (cache (ensureCalls type nows y)) = CACHE_TTL (cache y)"
proof (induction nows arbitrary: y)
  case Nil
  show ?case by (simp add: ensureCalls_def)
next
  case (Cons now nows)
  let ?z = "snd (ensureCall type now y)"
  from Cons.prems have miss: "\<not> isHit type now (cache y)" by simp
  have z: "?z = y\<lparr> cache := (cache y)\<lparr>misses := (misses (cache y))(type := misses (cache y) type + 1),
                              refreshes := (refreshes (cache y))(type := refreshes (cache y) type + 1)\<rparr>,
           issued := (issued y)(type := issued y type + 1),
           waiting := waiting y @ [type] \<rparr>"
    by (simp add: ensureCall_miss [OF miss])
  have same: "isHit type t (cache ?z) = isHit type t (cache y)" for t
    by (rule isHit_fields) (simp_all add: z)
  with Cons.prems have "\<forall>t \<in> set nows. \<not> isHit type t (cache ?z)" by simp
  from Cons.IH [OF this]
  have ih: "issued (ensureCalls type nows ?z) = (issued ?z)(type := issued ?z type + length nows) \<and>
     waiting (ensureCalls type nows ?z) = waiting ?z @ replicate (length nows) type \<and>
     inflight (ensureCalls type nows ?z) = inflight ?z \<and>
     resuming (ensureCalls type nows ?z) = resuming ?z \<and>
     misses (cache (ensureCalls type nows ?z)) =
       (misses (cache ?z))(type := misses (cache ?z) type + length nows) \<and>
     refreshes (cache (ensureCalls type nows ?z)) =
       (refreshes (cache ?z))(type := refreshes (cache ?z) type + length nows) \<and>
     hits (cache (ensureCalls type nows ?z)) = hits (cache ?z) \<and>
     entries (cache (ensureCalls type nows ?z)) = entries (cache ?z) \<and>
     lastUpdate (cache (ensureCalls type nows ?z)) = lastUpdate (cache ?z) \<and>
     CACHE_TTL (cache (ensureCalls type nows ?z)) = CACHE_TTL (cache ?z)" .
  have step: "ensureCalls type (now # nows) y = ensureCalls type nows ?z"
    by (simp add: ensureCalls_def)
  show ?case
    unfolding step using ih by (simp add: z replicate_append_same)
qed

lemma refreshRest_refresh:
  "refreshRest type (answer svc type) now
       (s\<lparr>refreshes := (refreshes s)(type := refreshes s type + 1)\<rparr>) =
     (fst (refresh type svc now s), fst (snd (refresh type svc now s)))"
  by (cases "answer svc type") (simp_all add: refreshRest_def refresh_Inl refresh_Inr)

lemma refresh_in_steps:
  "settle (length (inflight y)) (answer svc type) now (refreshCall type y) =
     (Some (fst (refresh type svc now (cache y))),
      y\<lparr> cache := fst (snd (refresh type svc now (cache y))),
         issued := (issued y)(type := issued y type + 1) \<rparr>)"
  by (cases "answer svc type")
     (simp_all add: settle_def refreshCall_def Let_def refresh_Inl refresh_Inr)

lemma ensure_in_steps:
  "(isHit type now (cache y) \<longrightarrow>
      ensureCall type now y =
        (Some (map_values (entries (cache y) type)),
         y\<lparr>cache := fst (snd (ensure type svc now now' (cache y)))\<rparr>) \<and>
      fst (ensure type svc now now' (cache y)) = Inr (map_values (entries (cache y) type))) \<and>
   (\<not> isHit type now (cache y) \<longrightarrow>
      fst (ensureCall type now y) = None \<and>
      resume (length (resuming y))
        (settleWaiting (length (waiting y)) (answer svc type) now' (snd (ensureCall type now y))) =
        (Some (fst (ensure type svc now now' (cache y))),
         y\<lparr> cache := fst (snd (ensure type svc now now' (cache y))),
            issued := (issued y)(type := issued y type + 1) \<rparr>))"
proof (intro conjI impI)
  assume h: "isHit type now (cache y)"
  then show "ensureCall type now y =
        (Some (map_values (entries (cache y) type)),
         y\<lparr>cache := fst (snd (ensure type svc now now' (cache y)))\<rparr>)"
    by (simp add: ensureCall_hit ensure_hit)
  from h show "fst (ensure type svc now now' (cache y)) = Inr (map_values (entries (cache y) type))"
    by (simp add: ensure_hit)
next
  assume m: "\<not> isHit type now (cache y)"
  then show "fst (ensureCall type now y) = None"
    by (simp add: ensureCall_miss)
  from m show "resume (length (resuming y))
        (settleWaiting (length (waiting y)) (answer svc type) now' (snd (ensureCall type now y))) =
        (Some (fst (ensure type svc now now' (cache y))),
         y\<lparr> cache := fst (snd (ensure type svc now now' (cache y))),
            issued := (issued y)(type := issued y type + 1) \<rparr>)"
    by (cases "answer svc type")
       (simp_all add: ensureCall_miss ensure_miss settleWaiting_def resume_def refreshRest_def
          Let_def refresh_Inl refresh_Inr)
qed

lemma steady_settleWaiting:
  assumes "steady type R z"
  shows "steady type R (settleWaiting i (Inr R) now z)"
proof (cases "i < length (waiting z)")
  case False
  with assms show ?thesis by (simp add: settleWaiting_def)
next
  case True
  with assms have t: "waiting z ! i = type"
    by (auto simp: steady_def dest: nth_mem)
  have "set (take i (waiting z) @ drop (Suc i) (waiting z)) \<subseteq> set (waiting z)"
    by (auto dest: in_set_takeD in_set_dropD)
  with assms True t show ?thesis
    by (auto simp: steady_def settleWaiting_def refreshRest_def Let_def)
qed

lemma steady_resume:
  assumes "steady type R z"
  shows "steady type R (snd (resume j z)) \<and>
         (fst (resume j z) = None \<or> fst (resume j z) = Some (Inr (map_values (populate R []))))"
proof (cases "j < length (resuming z)")
  case False
  with assms show ?thesis by (simp add: resume_def)
next
  case True
  with assms have r: "resuming z ! j = (type, None)"
    by (auto simp: steady_def dest: nth_mem)
  from True have ne: "resuming z \<noteq> []" by auto
  with assms have e: "entries (cache z) type = populate R []"
    by (simp add: steady_def)
  have "set (take j (resuming z) @ drop (Suc j) (resuming z)) \<subseteq> set (resuming z)"
    by (auto dest: in_set_takeD in_set_dropD)
  with assms True r e show ?thesis
    by (auto simp: steady_def resume_def Let_def)
qed

lemma steady_play:
  "steady type R z \<Longrightarrow> \<forall>a \<in> set acts. answersWith R a \<Longrightarrow>
     \<forall>out \<in> set (fst (play acts z)). out = Inr (map_values (populate R []))"
proof (induction acts arbitrary: z)
  case Nil
  show ?case by simp
next
  case (Cons a acts)
  from Cons.prems have rest: "\<forall>a \<in> set acts. answersWith R a" by simp
  show ?case
  proof (cases a)
    case (Settled i r now)
    with Cons.prems have "r = Inr R" by simp
    with Settled Cons.IH [OF steady_settleWaiting [OF Cons.prems(1)] rest]
    show ?thesis by simp
  next
    case (Resumed j)
    from steady_resume [OF Cons.prems(1), of j]
    have st: "steady type R (snd (resume j z))"
      and out: "fst (resume j z) = None \<or> fst (resume j z) = Some (Inr (map_values (populate R [])))"
      by simp_all
    from Cons.IH [OF st rest]
    have ih: "\<forall>out \<in> set (fst (play acts (snd (resume j z)))). out = Inr (map_values (populate R []))" .
    show ?thesis
      using Resumed out ih
      by (cases "resume j z") (auto split: option.splits prod.splits)
  qed
qed

lemma settle_all:
  "waiting z = replicate (k + m) type \<Longrightarrow>
     play (replicate k (Settled 0 (Inr R) now) @ acts) z =
       play acts (z\<lparr> cache := (if k = 0 then cache z
                               else (cache z)\<lparr>entries := (entries (cache z))(type := populate R []),
                                               lastUpdate := (lastUpdate (cache z))(type := Some now)\<rparr>),
                     waiting := replicate m type,
                     resuming := resuming z @ replicate k (type, None) \<rparr>)"
proof (induction k arbitrary: z)
  case 0
  then show ?case by (cases z) simp
next
  case (Suc k)
  let ?z = "settleWaiting 0 (Inr R) now z"
  from Suc.prems have w: "waiting ?z = replicate (k + m) type"
    by (simp add: settleWaiting_def refreshRest_def Let_def)
  have c: "cache ?z = (cache z)\<lparr>entries := (entries (cache z))(type := populate R []),
                                               lastUpdate := (lastUpdate (cache z))(type := Some now)\<rparr>"
    using Suc.prems by (simp add: settleWaiting_def refreshRest_def Let_def)
  have r: "resuming ?z = resuming z @ [(type, None)]"
    using Suc.prems by (simp add: settleWaiting_def refreshRest_def Let_def)
  have o: "issued ?z = issued z" "inflight ?z = inflight z"
    using Suc.prems by (simp_all add: settleWaiting_def refreshRest_def Let_def)
  have "play (replicate (Suc k) (Settled 0 (Inr R) now) @ acts) z =
        play (replicate k (Settled 0 (Inr R) now) @ acts) ?z"
    by simp
  also have "\<dots> = play acts (?z\<lparr> cache := (if k = 0 then cache ?z
                               else (cache ?z)\<lparr>entries := (entries (cache ?z))(type := populate R []),
                                               lastUpdate := (lastUpdate (cache ?z))(type := Some now)\<rparr>),
                     waiting := replicate m type,
                     resuming := resuming ?z @ replicate k (type, None) \<rparr>)"
    by (rule Suc.IH [OF w])
  also have "?z\<lparr> cache := (if k = 0 then cache ?z
                               else (cache ?z)\<lparr>entries := (entries (cache ?z))(type := populate R []),
                                               lastUpdate := (lastUpdate (cache ?z))(type := Some now)\<rparr>),
                     waiting := replicate m type,
                     resuming := resuming ?z @ replicate k (type, None) \<rparr> =
        z\<lparr> cache := (if Suc k = 0 then cache z
                               else (cache z)\<lparr>entries := (entries (cache z))(type := populate R []),
                                               lastUpdate := (lastUpdate (cache z))(type := Some now)\<rparr>),
                     waiting := replicate m type,
                     resuming := resuming z @ replicate (Suc k) (type, None) \<rparr>"
    by (rule system.equality) (simp_all add: c r o replicate_append_same)
  finally show ?case .
qed

lemma resume_all:
  "resuming z = replicate k (type, None) \<Longrightarrow>
     fst (play (replicate k (Resumed 0)) z) =
       replicate k (Inr (map_values (entries (cache z) type)))"
proof (induction k arbitrary: z)
  case 0
  then show ?case by simp
next
  case (Suc k)
  from Suc.prems have r: "resume 0 z =
      (Some (Inr (map_values (entries (cache z) type))), z\<lparr>resuming := replicate k (type, None)\<rparr>)"
    by (simp add: resume_def Let_def)
  have "fst (play (replicate k (Resumed 0)) (z\<lparr>resuming := replicate k (type, None)\<rparr>)) =
       replicate k (Inr (map_values (entries (cache (z\<lparr>resuming := replicate k (type, None)\<rparr>)) type)))"
    by (rule Suc.IH) simp
  then show ?case
    by (simp add: r case_prod_beta)
qed

text \<open>
  Two calls of ensureTags on a new cache whose answers come in the same turn: both
  refresh methods end before either ensure method goes on, and the first call returns
  the records of the second answer.
\<close>

lemma answers_in_one_turn:
  "fst (play [Settled 0 (Inr [tag1]) 20, Settled 0 (Inr [tag2]) 20, Resumed 0, Resumed 0]
         (ensureCalls Tags [10, 11] (boot 1000))) = [Inr [tag2], Inr [tag2]]"
  by (simp add: boot_def constructor_def isCacheValid_def map_size_def ensureCalls_def
      ensureCall_def settleWaiting_def refreshRest_def resume_def populate_def map_values_def)

subsection \<open>The clock\<close>

lemma ensure_ttl: "CACHE_TTL (fst (snd (ensure type svc now now' s))) = CACHE_TTL s"
  by (cases "isHit type now s") (simp_all add: ensure_hit ensure_miss refresh_ttl)

lemma refreshAll_ttl: "CACHE_TTL (fst (snd (refreshAll svc now s))) = CACHE_TTL s"
  by (simp add: refreshAll_def split: prod.splits) (metis refresh_ttl fst_conv snd_conv)

lemma exec_ttl: "CACHE_TTL (fst (exec x w)) = CACHE_TTL (fst w)"
proof (cases w)
  case (Pair s svc)
  then show ?thesis
    by (cases x)
       (simp_all add: ensure_ttl refresh_ttl refreshAll_ttl clearAll_eq addOne_def resetStats_def)
qed

lemma run_ttl: "CACHE_TTL (fst (run ops w)) = CACHE_TTL (fst w)"
  by (induction ops arbitrary: w) (simp_all add: run_Nil run_Cons exec_ttl)

lemma exec_nonzero:
  assumes "clockNonzero x" and "lastUpdate (fst w) c \<noteq> Some 0"
  shows "lastUpdate (fst (exec x w)) c \<noteq> Some 0"
proof (cases w)
  case (Pair s svc)
  show ?thesis
  proof (cases x)
    case (Ensure type a now now')
    then show ?thesis
      using assms Pair ensure_fields [of type "svc\<lparr>answer := (\<lambda>_. a)\<rparr>" now now' s c]
      by (auto split: if_splits)
  next
    case (Refresh type a now)
    then show ?thesis
      using assms Pair refresh_fields [of type "svc\<lparr>answer := (\<lambda>_. a)\<rparr>" now s c]
      by (auto split: if_splits)
  next
    case (RefreshAll a now)
    then show ?thesis
      using assms Pair refreshAll_fields [of "svc\<lparr>answer := a\<rparr>" now s c]
      by (cases c) (auto split: if_splits)
  next
    case ClearAll
    then show ?thesis using Pair by (simp add: clearAll_eq)
  next
    case (AddOne type r)
    then show ?thesis using assms Pair by (simp add: addOne_def)
  next
    case (GetStats now)
    then show ?thesis using assms Pair by simp
  next
    case ResetStats
    then show ?thesis using assms Pair by (simp add: resetStats_def)
  qed
qed

lemma run_nonzero:
  "\<forall>x \<in> set ops. clockNonzero x \<Longrightarrow> lastUpdate (fst w) c \<noteq> Some 0 \<Longrightarrow>
     lastUpdate (fst (run ops w)) c \<noteq> Some 0"
proof (induction ops arbitrary: w)
  case Nil
  then show ?case by (simp add: run_Nil)
next
  case (Cons x ops)
  from Cons.prems have x: "clockNonzero x" and rest: "\<forall>x \<in> set ops. clockNonzero x"
    by simp_all
  from exec_nonzero [OF x Cons.prems(2)] have "lastUpdate (fst (exec x w)) c \<noteq> Some 0" .
  from Cons.IH [OF rest this] show ?case by (simp add: run_Cons)
qed

text \<open>
  Where the test \<open>!lastUpdate\<close> and the rule of the specification part: a refresh that
  ended with the clock at \<open>0\<close> would store the number \<open>0\<close>, which the test takes for
  \<open>null\<close>.
\<close>

lemma zero_timestamp_is_never_valid:
  "lastUpdate (fst (run [Refresh Tags (Inr [tag1]) 0] (start 1000))) Tags = Some 0 \<and>
   isValid_spec (Some 0) 1000 500 = True \<and>
   isCacheValid Tags 500 (fst (run [Refresh Tags (Inr [tag1]) 0] (start 1000))) = False"
  by (simp add: run_def start_def constructor_def service_def refresh_def fetch_def
      populate_def isCacheValid_def isValid_spec_def split: prod.splits)

section \<open>The claims\<close>

text \<open>
  C1. A call of ensure for a category that is valid by the time to live and whose Map is
  not empty adds one to the hit counter of that category and to nothing else, leaves the
  cache and the service as they are (upstream is not called) and returns the values of
  the Map. In every other state it adds one to the miss counter of that category, leaves
  the hit counters alone, and does what refresh does on that state: one upstream call,
  and the result of refresh is the result of ensure.
\<close>

theorem ensure_hit_or_miss:
  "(isCacheValid type now s \<and> 0 < map_size (entries s type) \<longrightarrow>
      (case ensure type svc now now' s of
         (r, s', svc') \<Rightarrow>
           r = Inr (map_values (entries s type)) \<and>
           hits s' = (hits s)(type := hits s type + 1) \<and>
           misses s' = misses s \<and> refreshes s' = refreshes s \<and>
           entries s' = entries s \<and> lastUpdate s' = lastUpdate s \<and>
           svc' = svc)) \<and>
   (\<not> (isCacheValid type now s \<and> 0 < map_size (entries s type)) \<longrightarrow>
      ensure type svc now now' s =
        refresh type svc now' (s\<lparr>misses := (misses s)(type := misses s type + 1)\<rparr>) \<and>
      (case ensure type svc now now' s of
         (r, s', svc') \<Rightarrow>
           misses s' = (misses s)(type := misses s type + 1) \<and>
           hits s' = hits s \<and>
           calls svc' = (calls svc)(type := calls svc type + 1)))"
proof (intro conjI impI)
  assume "isCacheValid type now s \<and> 0 < map_size (entries s type)"
  then have "isHit type now s" by (simp add: isHit_def)
  then show "case ensure type svc now now' s of
         (r, s', svc') \<Rightarrow>
           r = Inr (map_values (entries s type)) \<and>
           hits s' = (hits s)(type := hits s type + 1) \<and>
           misses s' = misses s \<and> refreshes s' = refreshes s \<and>
           entries s' = entries s \<and> lastUpdate s' = lastUpdate s \<and>
           svc' = svc"
    by (simp add: ensure_hit)
next
  assume "\<not> (isCacheValid type now s \<and> 0 < map_size (entries s type))"
  then have miss: "\<not> isHit type now s" by (simp add: isHit_def)
  then show "ensure type svc now now' s =
        refresh type svc now' (s\<lparr>misses := (misses s)(type := misses s type + 1)\<rparr>)"
    by (rule ensure_miss)
  show "case ensure type svc now now' s of
         (r, s', svc') \<Rightarrow>
           misses s' = (misses s)(type := misses s type + 1) \<and>
           hits s' = hits s \<and>
           calls svc' = (calls svc)(type := calls svc type + 1)"
    by (cases "answer svc type") (simp_all add: ensure_miss [OF miss] refresh_Inl refresh_Inr)
qed

text \<open>
  A hit: the tags were refreshed at time 100 with one record, the time to live is 1000,
  and ensure at time 500 returns that record without a call. A miss: the same call on a
  new cache asks upstream once.
\<close>

theorem ensure_hit_or_miss_witness:
  "(isCacheValid Tags 500 (fst (snd (refresh Tags (answering [tag1]) 100 (constructor 1000)))) \<and>
    0 < map_size (entries (fst (snd (refresh Tags (answering [tag1]) 100 (constructor 1000)))) Tags) \<and>
    fst (ensure Tags (answering [tag2]) 500 501
          (fst (snd (refresh Tags (answering [tag1]) 100 (constructor 1000))))) = Inr [tag1] \<and>
    calls (snd (snd (ensure Tags (answering [tag2]) 500 501
          (fst (snd (refresh Tags (answering [tag1]) 100 (constructor 1000))))))) Tags = 0) \<and>
   (\<not> (isCacheValid Tags 500 (constructor 1000) \<and> 0 < map_size (entries (constructor 1000) Tags)) \<and>
    fst (ensure Tags (answering [tag2]) 500 501 (constructor 1000)) = Inr [tag2] \<and>
    misses (fst (snd (ensure Tags (answering [tag2]) 500 501 (constructor 1000)))) Tags = 1 \<and>
    calls (snd (snd (ensure Tags (answering [tag2]) 500 501 (constructor 1000)))) Tags = 1)"
  using ensure_hit_or_miss [of Tags 500 "fst (snd (refresh Tags (answering [tag1]) 100 (constructor 1000)))"
      "answering [tag2]" 501]
    ensure_hit_or_miss [of Tags 500 "constructor 1000" "answering [tag2]" 501]
  by (simp add: answering_def service_def constructor_def refresh_def fetch_def populate_def
      isCacheValid_def map_size_def map_values_def split: prod.splits)

text \<open>
  C2. After every sequence of calls on a new cache in which the clock never reads 0,
  for every category, every time to live and every time \<open>now\<close>: the validity check of
  the code is the rule of the specification applied to the stored time of the last
  refresh, the time to live and \<open>now\<close>. So it is false when the time of the last
  refresh is absent, and otherwise true exactly when \<open>now - lastRefreshAt < ttl\<close>. With a
  time to live of zero and a clock that has not gone back behind the last refresh the
  check is false, and two calls of ensure in a row, the second not before the first
  was answered, are two misses and ask upstream twice.
\<close>

theorem isCacheValid_is_ttl_rule:
  assumes "\<forall>x \<in> set ops. clockNonzero x"
  shows "isCacheValid type now (fst (run ops (start ttl))) =
           isValid_spec (lastUpdate (fst (run ops (start ttl))) type) ttl now \<and>
         CACHE_TTL (fst (run ops (start ttl))) = ttl \<and>
         (lastUpdate (fst (run ops (start ttl))) type = None \<longrightarrow>
            \<not> isCacheValid type now (fst (run ops (start ttl)))) \<and>
         (\<forall>t. lastUpdate (fst (run ops (start ttl))) type = Some t \<longrightarrow>
            isCacheValid type now (fst (run ops (start ttl))) = (now - t < ttl)) \<and>
         (ttl = 0 \<and> (\<forall>t. lastUpdate (fst (run ops (start ttl))) type = Some t \<longrightarrow> t \<le> now) \<longrightarrow>
            \<not> isCacheValid type now (fst (run ops (start ttl))) \<and>
            (now \<le> now' \<and> now' \<le> again \<longrightarrow>
               calls (snd (run (ops @ [Ensure type a now now', Ensure type b again again'])
                  (start ttl))) type =
                 calls (snd (run ops (start ttl))) type + 2 \<and>
               misses (fst (run (ops @ [Ensure type a now now', Ensure type b again again'])
                  (start ttl))) type =
                 misses (fst (run ops (start ttl))) type + 2))"
proof -
  obtain s svc where w: "run ops (start ttl) = (s, svc)"
    by (cases "run ops (start ttl)") auto
  have init: "CACHE_TTL (fst (start ttl)) = ttl" "lastUpdate (fst (start ttl)) type \<noteq> Some 0"
    by (simp_all add: start_def constructor_def)
  have ttl: "CACHE_TTL s = ttl"
    using run_ttl [of ops "start ttl"] init(1) by (simp add: w)
  have nz: "lastUpdate s type \<noteq> Some 0"
    using run_nonzero [OF assms init(2)] by (simp add: w)
  have rule: "isCacheValid type now s = isValid_spec (lastUpdate s type) ttl now"
    using isCacheValid_refines [OF nz, of now] by (simp add: ttl)
  have absent: "lastUpdate s type = None \<longrightarrow> \<not> isCacheValid type now s"
    by (simp add: isCacheValid_absent)
  have present: "\<forall>t. lastUpdate s type = Some t \<longrightarrow> isCacheValid type now s = (now - t < ttl)"
    by (simp add: rule isValid_spec_def)
  have zero: "ttl = 0 \<and> (\<forall>t. lastUpdate s type = Some t \<longrightarrow> t \<le> now) \<longrightarrow>
            \<not> isCacheValid type now s \<and>
            (now \<le> now' \<and> now' \<le> again \<longrightarrow>
               calls (snd (run [Ensure type a now now', Ensure type b again again'] (s, svc))) type =
                 calls svc type + 2 \<and>
               misses (fst (run [Ensure type a now now', Ensure type b again again'] (s, svc))) type =
                 misses s type + 2)"
  proof (intro impI conjI)
    assume a: "ttl = 0 \<and> (\<forall>t. lastUpdate s type = Some t \<longrightarrow> t \<le> now)"
    then show "\<not> isCacheValid type now s"
      by (auto simp: rule isValid_spec_def split: option.splits)
    assume c: "now \<le> now' \<and> now' \<le> again"
    from a ttl have t0: "CACHE_TTL s = 0" by simp
    from a have past: "\<forall>t. lastUpdate s type = Some t \<longrightarrow> t \<le> now" by simp
    from c have c1: "now \<le> now'" and c2: "now' \<le> again" by simp_all
    from zero_ttl_two_ensures [OF t0 past c1 c2, of a b again' svc]
    show "calls (snd (run [Ensure type a now now', Ensure type b again again'] (s, svc))) type =
                 calls svc type + 2"
      and "misses (fst (run [Ensure type a now now', Ensure type b again again'] (s, svc))) type =
                 misses s type + 2"
      by simp_all
  qed
  show ?thesis
    unfolding run_append w fst_conv snd_conv
    using rule ttl absent present zero by blast
qed

text \<open>
  Tags refreshed at time 100 with a time to live of 1000: valid at 1099, not at 1100.
  A new cache: not valid. With a time to live of 0: not valid at once, and two calls of
  ensure after the refresh make three upstream calls in all.
\<close>

theorem isCacheValid_is_ttl_rule_witness:
  "clockNonzero (Refresh Tags (Inr [tag1]) 100) \<and>
   lastUpdate (fst (run [Refresh Tags (Inr [tag1]) 100] (start 1000))) Tags = Some 100 \<and>
   isCacheValid Tags 1099 (fst (run [Refresh Tags (Inr [tag1]) 100] (start 1000))) \<and>
   \<not> isCacheValid Tags 1100 (fst (run [Refresh Tags (Inr [tag1]) 100] (start 1000))) \<and>
   lastUpdate (fst (run [] (start 1000))) Tags = None \<and>
   \<not> isCacheValid Tags 500 (fst (run [] (start 1000))) \<and>
   lastUpdate (fst (run [Refresh Tags (Inr [tag1]) 100] (start 0))) Tags = Some 100 \<and>
   (100 :: int) \<le> 100 \<and> (100 :: int) \<le> 110 \<and> (110 :: int) \<le> 120 \<and>
   \<not> isCacheValid Tags 100 (fst (run [Refresh Tags (Inr [tag1]) 100] (start 0))) \<and>
   calls (snd (run [Refresh Tags (Inr [tag1]) 100] (start 0))) Tags = 1 \<and>
   calls (snd (run ([Refresh Tags (Inr [tag1]) 100] @
      [Ensure Tags (Inr [tag1]) 100 110, Ensure Tags (Inr [tag1]) 120 130]) (start 0))) Tags = 3"
  using isCacheValid_is_ttl_rule [where ops = "[Refresh Tags (Inr [tag1]) 100]" and ttl = 1000
      and type = Tags and now = 1099]
    isCacheValid_is_ttl_rule [where ops = "[Refresh Tags (Inr [tag1]) 100]" and ttl = 1000
      and type = Tags and now = 1100]
    isCacheValid_is_ttl_rule [where ops = "[]" and ttl = 1000 and type = Tags and now = 500]
    isCacheValid_is_ttl_rule [where ops = "[Refresh Tags (Inr [tag1]) 100]" and ttl = 0
      and type = Tags and now = 100 and now' = 110 and again = 120 and again' = 130
      and a = "Inr [tag1]" and b = "Inr [tag1]"]
  by (simp add: run_def start_def constructor_def service_def refresh_def fetch_def
      populate_def isValid_spec_def split: prod.splits)

text \<open>
  C3. When upstream answers a refresh of a category with the records R, the Map of that
  category afterwards holds the records of R under their ids and nothing else: looking
  an id up gives the last record of R with that id, the keys are the ids of R, no key
  stands twice, every value is a record of R, an id that R does not have is not found
  whatever was cached before, and when the ids of R are distinct the values are R
  itself, in the order of R. The time of the last refresh is the clock read after the
  answer. The method returns the values, and the other categories are as before.
\<close>

theorem refresh_replaces:
  assumes "answer svc type = Inr R"
  shows "case refresh type svc now s of
           (r, s', svc') \<Rightarrow>
             map_get (entries s' type) = map_of (rev (map (\<lambda>x. (id' x, x)) R)) \<and>
             set (map fst (entries s' type)) = set (map id' R) \<and>
             distinct (map fst (entries s' type)) \<and>
             set (map_values (entries s' type)) \<subseteq> set R \<and>
             (\<forall>k. k \<notin> set (map id' R) \<longrightarrow> map_get (entries s' type) k = None) \<and>
             (distinct (map id' R) \<longrightarrow> map_values (entries s' type) = R) \<and>
             r = Inr (map_values (entries s' type)) \<and>
             lastUpdate s' type = Some now \<and>
             (\<forall>c. c \<noteq> type \<longrightarrow> entries s' c = entries s c \<and> lastUpdate s' c = lastUpdate s c)"
proof -
  let ?m = "populate R []"
  have get: "map_get ?m = map_of (rev (map (\<lambda>x. (id' x, x)) R))"
    by (simp add: map_get_def map_of_populate fun_eq_iff)
  have keys: "set (map fst ?m) = set (map id' R)"
    using keys_populate [of R "[]"] by simp
  have dist: "distinct (map fst ?m)"
    by (rule distinct_populate) simp
  have sub: "set (map_values ?m) \<subseteq> set R"
  proof
    fix v assume "v \<in> set (map_values ?m)"
    then obtain k where kv: "(k, v) \<in> set ?m"
      by (auto simp: map_values_def)
    with dist have "map_of ?m k = Some v" by simp
    then have "map_of (rev (map (\<lambda>x. (id' x, x)) R)) k = Some v"
      by (simp add: map_of_populate)
    then have "(k, v) \<in> set (rev (map (\<lambda>x. (id' x, x)) R))"
      by (rule map_of_SomeD)
    then show "v \<in> set R" by auto
  qed
  have gone: "\<forall>k. k \<notin> set (map id' R) \<longrightarrow> map_get ?m k = None"
  proof (intro allI impI)
    fix k assume "k \<notin> set (map id' R)"
    with keys have "k \<notin> set (map fst ?m)" by blast
    then show "map_get ?m k = None"
      by (simp add: map_get_def map_of_eq_None_iff)
  qed
  have vals: "distinct (map id' R) \<longrightarrow> map_values ?m = R"
    by (simp add: values_populate_distinct)
  show ?thesis
    using get keys dist sub gone vals
    by (simp add: refresh_Inr [OF assms])
qed

text \<open>
  The example of the claim: a refresh that returns the records 1, 2, 3 and then one that
  returns 2, 3, 4 leave 2, 3, 4; record 1 is gone.
\<close>

theorem refresh_replaces_witness:
  "answer (answering [tag2, tag3, tag4]) Tags = Inr [tag2, tag3, tag4] \<and>
   distinct (map id' [tag2, tag3, tag4]) \<and>
   NumId 1 \<notin> set (map id' [tag2, tag3, tag4]) \<and>
   Correspondents \<noteq> Tags \<and>
   map_values (entries (fst (snd (refresh Tags (answering [tag1, tag2, tag3]) 100 (constructor 1000)))) Tags)
     = [tag1, tag2, tag3] \<and>
   map_values (entries (fst (snd (refresh Tags (answering [tag2, tag3, tag4]) 200
      (fst (snd (refresh Tags (answering [tag1, tag2, tag3]) 100 (constructor 1000))))))) Tags)
     = [tag2, tag3, tag4] \<and>
   map_get (entries (fst (snd (refresh Tags (answering [tag2, tag3, tag4]) 200
      (fst (snd (refresh Tags (answering [tag1, tag2, tag3]) 100 (constructor 1000))))))) Tags) (NumId 1)
     = None \<and>
   lastUpdate (fst (snd (refresh Tags (answering [tag2, tag3, tag4]) 200
      (fst (snd (refresh Tags (answering [tag1, tag2, tag3]) 100 (constructor 1000))))))) Tags = Some 200"
  using refresh_replaces [where svc = "answering [tag2, tag3, tag4]" and type = Tags
      and R = "[tag2, tag3, tag4]" and now = 200
      and s = "fst (snd (refresh Tags (answering [tag1, tag2, tag3]) 100 (constructor 1000)))"]
  by (simp add: answering_def service_def constructor_def refresh_def fetch_def populate_def
      map_size_def map_values_def map_get_def tag1_def tag2_def tag3_def tag4_def split: prod.splits)

text \<open>
  C4. When the upstream call of a refresh is rejected, the refresh ends with that error,
  and the Maps and the times of the last refresh, of every category, are what they were
  before the call. The same holds of an ensure that finds no servable cache and so
  runs the refresh: the error reaches its caller and the cached records stay.
\<close>

theorem refresh_failure_keeps_state:
  assumes "answer svc type = Inl e"
  shows "(case refresh type svc now s of
            (r, s', svc') \<Rightarrow>
              r = Inl e \<and> entries s' = entries s \<and> lastUpdate s' = lastUpdate s) \<and>
         (\<not> isHit type t s \<longrightarrow>
            (case ensure type svc t now s of
               (r, s', svc') \<Rightarrow>
                 r = Inl e \<and> entries s' = entries s \<and> lastUpdate s' = lastUpdate s))"
  by (simp add: refresh_Inl [OF assms] ensure_miss)

text \<open>
  Two tags cached at time 100; at time 5000 they are stale, upstream is down: refresh
  and ensure both end with the error, and the two tags and the time 100 are still there.
\<close>

theorem refresh_failure_keeps_state_witness:
  "answer (failing ''timeout'') Tags = Inl (Error ''timeout'') \<and>
   \<not> isHit Tags 5000 (fst (snd (refresh Tags (answering [tag1, tag2]) 100 (constructor 1000)))) \<and>
   fst (refresh Tags (failing ''timeout'') 5001
      (fst (snd (refresh Tags (answering [tag1, tag2]) 100 (constructor 1000))))) = Inl (Error ''timeout'') \<and>
   map_values (entries (fst (snd (refresh Tags (failing ''timeout'') 5001
      (fst (snd (refresh Tags (answering [tag1, tag2]) 100 (constructor 1000))))))) Tags) = [tag1, tag2] \<and>
   lastUpdate (fst (snd (ensure Tags (failing ''timeout'') 5000 5001
      (fst (snd (refresh Tags (answering [tag1, tag2]) 100 (constructor 1000))))))) Tags = Some 100 \<and>
   fst (ensure Tags (failing ''timeout'') 5000 5001
      (fst (snd (refresh Tags (answering [tag1, tag2]) 100 (constructor 1000))))) = Inl (Error ''timeout'')"
  using refresh_failure_keeps_state [where svc = "failing ''timeout''" and type = Tags
      and e = "Error ''timeout''" and now = 5001 and t = 5000
      and s = "fst (snd (refresh Tags (answering [tag1, tag2]) 100 (constructor 1000)))"]
  by (simp add: answering_def failing_def service_def constructor_def refresh_def fetch_def populate_def
      isHit_def isCacheValid_def
      map_size_def map_values_def map_get_def tag1_def tag2_def split: prod.splits)

text \<open>
  C5. The claim: of N ensure calls that overlap and all find the cache of a category
  stale or empty, one asks upstream and all return the same values. The methods keep
  no mark of a request in flight: each call that finds no servable cache counts a miss,
  counts a refresh and sends a request of its own. What holds, for calls made at the
  times \<open>nows\<close> before any answer has come: the requests sent for the category grow
  by the number of calls, each call waits for a request of its own, the miss and
  refresh counters of the category grow by the same number, and the hit counters, the
  Maps and the times of the last refresh are as before. A call that goes on after its
  refresh has ended throws what the refresh threw or returns the values the Map holds
  at that moment. When no other ensure call was waiting, every answer carries the same
  records R and nothing else runs in between, every call returns the values of the Map
  built from R, in whatever order the answers come and the calls go on; and when all
  answers have come and all calls have gone on, these are N equal results.
\<close>

theorem overlapping_ensures_fetch_each:
  assumes "\<forall>now \<in> set nows. \<not> isHit type now (cache y)"
  shows "issued (ensureCalls type nows y) type = issued y type + length nows \<and>
         waiting (ensureCalls type nows y) = waiting y @ replicate (length nows) type \<and>
         misses (cache (ensureCalls type nows y)) type = misses (cache y) type + length nows \<and>
         refreshes (cache (ensureCalls type nows y)) type = refreshes (cache y) type + length nows \<and>
         hits (cache (ensureCalls type nows y)) = hits (cache y) \<and>
         entries (cache (ensureCalls type nows y)) = entries (cache y) \<and>
         lastUpdate (cache (ensureCalls type nows y)) = lastUpdate (cache y) \<and>
         (\<forall>j z. j < length (resuming z) \<longrightarrow>
            fst (resume j z) =
              Some (case snd (resuming z ! j) of
                      Some e \<Rightarrow> Inl e
                    | None \<Rightarrow> Inr (map_values (entries (cache z) (fst (resuming z ! j)))))) \<and>
         (waiting y = [] \<and> resuming y = [] \<longrightarrow>
            (\<forall>acts. (\<forall>a \<in> set acts. answersWith R a) \<longrightarrow>
               (\<forall>out \<in> set (fst (play acts (ensureCalls type nows y))).
                  out = Inr (map_values (populate R [])))) \<and>
            fst (play (replicate (length nows) (Settled 0 (Inr R) t) @
                       replicate (length nows) (Resumed 0))
                  (ensureCalls type nows y)) =
              replicate (length nows) (Inr (map_values (populate R []))))"
proof -
  let ?y = "ensureCalls type nows y"
  let ?n = "length nows"
  note counts = ensureCalls_all_miss [OF assms]
  have res: "\<forall>j z. j < length (resuming z) \<longrightarrow>
            fst (resume j z) =
              Some (case snd (resuming z ! j) of
                      Some e \<Rightarrow> Inl e
                    | None \<Rightarrow> Inr (map_values (entries (cache z) (fst (resuming z ! j)))))"
    by (simp add: resume_def Let_def case_prod_beta)
  have sched: "waiting y = [] \<and> resuming y = [] \<longrightarrow>
            (\<forall>acts. (\<forall>a \<in> set acts. answersWith R a) \<longrightarrow>
               (\<forall>out \<in> set (fst (play acts ?y)). out = Inr (map_values (populate R [])))) \<and>
            fst (play (replicate ?n (Settled 0 (Inr R) t) @ replicate ?n (Resumed 0)) ?y) =
              replicate ?n (Inr (map_values (populate R [])))"
  proof (intro impI conjI allI)
    assume e: "waiting y = [] \<and> resuming y = []"
    with counts have w: "waiting ?y = replicate ?n type" and r: "resuming ?y = []"
      by simp_all
    then have st: "steady type R ?y"
      by (auto simp: steady_def)
    fix acts assume "\<forall>a \<in> set acts. answersWith R a"
    with st show "\<forall>out \<in> set (fst (play acts ?y)). out = Inr (map_values (populate R []))"
      by (rule steady_play)
  next
    assume e: "waiting y = [] \<and> resuming y = []"
    with counts have w: "waiting ?y = replicate (?n + 0) type" and r: "resuming ?y = []"
      by simp_all
    show "fst (play (replicate ?n (Settled 0 (Inr R) t) @ replicate ?n (Resumed 0)) ?y) =
              replicate ?n (Inr (map_values (populate R [])))"
    proof (cases "?n = 0")
      case True
      then show ?thesis by simp
    next
      case False
      then show ?thesis
        unfolding settle_all [OF w]
        by (subst resume_all [where type = type]) (simp_all add: r)
    qed
  qed
  show ?thesis
    using counts res sched by simp
qed

text \<open>
  Three calls of ensureTags on a new cache: three requests. Answered with the same two
  tags, in a mixed order and in one turn, each call returns the two tags.
\<close>

theorem overlapping_ensures_fetch_each_witness:
  "\<not> isHit Tags 10 (cache (boot 1000)) \<and>
   \<not> isHit Tags 11 (cache (boot 1000)) \<and>
   \<not> isHit Tags 12 (cache (boot 1000)) \<and>
   waiting (boot 1000) = [] \<and> resuming (boot 1000) = [] \<and>
   issued (ensureCalls Tags [10, 11, 12] (boot 1000)) Tags = 3 \<and>
   waiting (ensureCalls Tags [10, 11, 12] (boot 1000)) = [Tags, Tags, Tags] \<and>
   misses (cache (ensureCalls Tags [10, 11, 12] (boot 1000))) Tags = 3 \<and>
   answersWith [tag1, tag2] (Settled 2 (Inr [tag1, tag2]) 20) \<and>
   answersWith [tag1, tag2] (Resumed 0) \<and>
   fst (play [Settled 2 (Inr [tag1, tag2]) 20, Resumed 0, Settled 0 (Inr [tag1, tag2]) 21,
              Settled 0 (Inr [tag1, tag2]) 21, Resumed 1, Resumed 0]
         (ensureCalls Tags [10, 11, 12] (boot 1000))) =
     [Inr [tag1, tag2], Inr [tag1, tag2], Inr [tag1, tag2]] \<and>
   fst (play (replicate (length [10, 11, 12 :: int]) (Settled 0 (Inr [tag1, tag2]) 20) @
              replicate (length [10, 11, 12 :: int]) (Resumed 0))
         (ensureCalls Tags [10, 11, 12] (boot 1000))) =
     [Inr [tag1, tag2], Inr [tag1, tag2], Inr [tag1, tag2]]"
  using overlapping_ensures_fetch_each [where type = Tags and nows = "[10, 11, 12]"
      and y = "boot 1000" and R = "[tag1, tag2]" and t = 20]
  by (simp add: boot_def constructor_def isHit_def isCacheValid_def map_size_def ensureCalls_def
      ensureCall_def settleWaiting_def refreshRest_def resume_def populate_def map_values_def
      tag1_def tag2_def numeral_3_eq_3)

text \<open>
  Two calls of ensureTags on a new cache, the second before the first is answered:
  both wait, two requests are sent, not one; and when upstream answers the first with
  one tag and, after that call has returned, the second with another, the two calls
  return different values.
\<close>

theorem two_ensures_two_fetches:
  "fst (ensureCall Tags 10 (boot 1000)) = None \<and>
   fst (ensureCall Tags 11 (snd (ensureCall Tags 10 (boot 1000)))) = None \<and>
   issued (ensureCalls Tags [10, 11] (boot 1000)) Tags = 2 \<and>
   waiting (ensureCalls Tags [10, 11] (boot 1000)) = [Tags, Tags] \<and>
   fst (play [Settled 0 (Inr [tag1]) 20, Resumed 0, Settled 0 (Inr [tag2]) 21, Resumed 0]
         (ensureCalls Tags [10, 11] (boot 1000))) = [Inr [tag1], Inr [tag2]]"
  by (simp add: boot_def constructor_def isCacheValid_def map_size_def ensureCalls_def
      ensureCall_def settleWaiting_def refreshRest_def resume_def populate_def map_values_def)

text \<open>
  C6. An add method puts the record under its id in the Map of its category: the lookup
  of that id gives the record, the lookup of every other id is as before, the size
  grows by one when the id is new and stays when it is replaced. The Maps of the other
  categories, the times of the last refresh, the three blocks of counters and the time
  to live are untouched, so the age that is reported is the same. The record is among
  the values at once, and an ensure on a category that is still valid returns it
  without a call upstream.
\<close>

theorem addOne_single_entry:
  "map_get (entries (addOne type r s) type) = (map_get (entries s type))(id' r \<mapsto> r) \<and>
   r \<in> set (map_values (entries (addOne type r s) type)) \<and>
   map_size (entries (addOne type r s) type) =
     (if id' r \<in> set (map fst (entries s type)) then map_size (entries s type)
      else map_size (entries s type) + 1) \<and>
   (\<forall>c. c \<noteq> type \<longrightarrow> entries (addOne type r s) c = entries s c) \<and>
   lastUpdate (addOne type r s) = lastUpdate s \<and>
   hits (addOne type r s) = hits s \<and>
   misses (addOne type r s) = misses s \<and>
   refreshes (addOne type r s) = refreshes s \<and>
   CACHE_TTL (addOne type r s) = CACHE_TTL s \<and>
   getCacheAge c now (addOne type r s) = getCacheAge c now s \<and>
   (isCacheValid type now s \<longrightarrow>
      (case ensure type svc now now' (addOne type r s) of
         (res, s', svc') \<Rightarrow> (\<exists>rs. res = Inr rs \<and> r \<in> set rs) \<and> svc' = svc))"
proof -
  let ?m = "map_set (id' r) r (entries s type)"
  have mem: "r \<in> set (map_values ?m)"
    using map_set_member [of "id' r" r "entries s type"]
    by (force simp: map_values_def)
  have valid: "isCacheValid type now (addOne type r s) = isCacheValid type now s"
    by (simp add: isCacheValid_def addOne_def split: option.splits)
  have hit: "isCacheValid type now s \<Longrightarrow> isHit type now (addOne type r s)"
    using map_set_not_Nil [of "id' r" r "entries s type"]
    by (simp add: isHit_def valid) (simp add: addOne_def map_size_def)
  have served: "isCacheValid type now s \<longrightarrow>
      (case ensure type svc now now' (addOne type r s) of
         (res, s', svc') \<Rightarrow> (\<exists>rs. res = Inr rs \<and> r \<in> set rs) \<and> svc' = svc)"
  proof
    assume "isCacheValid type now s"
    then have "isHit type now (addOne type r s)" by (rule hit)
    then show "case ensure type svc now now' (addOne type r s) of
         (res, s', svc') \<Rightarrow> (\<exists>rs. res = Inr rs \<and> r \<in> set rs) \<and> svc' = svc"
      using mem by (simp add: ensure_hit) (simp add: addOne_def)
  qed
  have get: "map_get ?m = (map_get (entries s type))(id' r \<mapsto> r)"
    by (simp add: fun_eq_iff map_get_def map_of_map_set)
  show ?thesis
    using mem served get
    by (simp add: addOne_def map_size_def length_map_set getCacheAge_def)
qed

text \<open>
  Two tags refreshed at time 100; a third is added: the values are the three, the time
  of the last refresh is still 100, and ensure at time 500 returns the three although
  upstream is down.
\<close>

theorem addOne_single_entry_witness:
  "Correspondents \<noteq> Tags \<and>
   isCacheValid Tags 500 (fst (snd (refresh Tags (answering [tag1, tag2]) 100 (constructor 1000)))) \<and>
   map_values (entries (addOne Tags tag3
      (fst (snd (refresh Tags (answering [tag1, tag2]) 100 (constructor 1000))))) Tags) = [tag1, tag2, tag3] \<and>
   lastUpdate (addOne Tags tag3
      (fst (snd (refresh Tags (answering [tag1, tag2]) 100 (constructor 1000))))) Tags = Some 100 \<and>
   fst (ensure Tags (failing ''down'') 500 501 (addOne Tags tag3
      (fst (snd (refresh Tags (answering [tag1, tag2]) 100 (constructor 1000)))))) = Inr [tag1, tag2, tag3]"
  using addOne_single_entry [where type = Tags and r = tag3 and now = 500 and now' = 501
      and svc = "failing ''down''" and c = Tags
      and s = "fst (snd (refresh Tags (answering [tag1, tag2]) 100 (constructor 1000)))"]
  by (simp add: answering_def failing_def service_def constructor_def refresh_def fetch_def populate_def
      isCacheValid_def addOne_def ensure_def
      map_size_def map_values_def map_get_def tag1_def tag2_def tag3_def split: prod.splits)

text \<open>
  C7. After clearAll the Map of every category is empty and its time of the last refresh
  is absent, whatever they were; the counters, the time to live and the service are
  untouched (no upstream call). So at any time the category is not valid, and the next
  ensure is a miss: it adds one to the miss counter of the category, none to the hit
  counters, and asks upstream once.
\<close>

theorem clearAll_forces_miss:
  "entries (clearAll s) c = [] \<and>
   lastUpdate (clearAll s) c = None \<and>
   hits (clearAll s) = hits s \<and>
   misses (clearAll s) = misses s \<and>
   refreshes (clearAll s) = refreshes s \<and>
   CACHE_TTL (clearAll s) = CACHE_TTL s \<and>
   exec ClearAll (s, svc) = (clearAll s, svc) \<and>
   \<not> isCacheValid c now (clearAll s) \<and>
   \<not> isHit c now (clearAll s) \<and>
   ensure c svc now now' (clearAll s) =
     refresh c svc now' ((clearAll s)\<lparr>misses := (misses s)(c := misses s c + 1)\<rparr>) \<and>
   misses (fst (snd (ensure c svc now now' (clearAll s)))) = (misses s)(c := misses s c + 1) \<and>
   hits (fst (snd (ensure c svc now now' (clearAll s)))) = hits s \<and>
   calls (snd (snd (ensure c svc now now' (clearAll s)))) = (calls svc)(c := calls svc c + 1)"
proof -
  have miss: "\<not> isHit c now (clearAll s)"
    by (simp add: isHit_def isCacheValid_def clearAll_eq)
  have e: "ensure c svc now now' (clearAll s) =
     refresh c svc now' ((clearAll s)\<lparr>misses := (misses s)(c := misses s c + 1)\<rparr>)"
    using ensure_miss [OF miss] by (simp add: clearAll_eq)
  have rest: "misses (fst (snd (ensure c svc now now' (clearAll s)))) = (misses s)(c := misses s c + 1) \<and>
   hits (fst (snd (ensure c svc now now' (clearAll s)))) = hits s \<and>
   calls (snd (snd (ensure c svc now now' (clearAll s)))) = (calls svc)(c := calls svc c + 1)"
    unfolding e
    by (cases "answer svc c") (simp_all add: refresh_Inl refresh_Inr clearAll_eq)
  show ?thesis
    using miss e rest by (simp add: clearAll_eq isCacheValid_def)
qed

text \<open>
  C8. The claim reads the totals of getStats as the hits and misses of the whole
  sequence of calls. The counters are set to zero by resetStats, so what getStats
  reports are the hits and misses since the last resetStats, or since the cache was
  made when there was none. Every sequence is a part that is empty or ends with
  resetStats followed by a part with no resetStats (\<open>split_at_last_reset\<close>), and for the
  second part, with H the calls of ensure that found a servable cache and M those that
  did not: totalHits is H, totalMisses is M, totalRequests is H + M; when H + M is
  positive the rate differs from \<open>H / (H + M) * 100\<close> by at most half a hundredth, and
  when it is zero the rate is 0; the counters of each category are its own hits and
  misses; and the call of getStats leaves the cache and the service as they are.
\<close>

theorem getStats_counts_since_reset:
  assumes post: "\<forall>x \<in> set post. \<not> isResetStats x"
    and pre: "pre = [] \<or> isResetStats (last pre)"
  shows "totalHits (overall (getStats now (fst (run (pre @ post) (start ttl))))) =
           totalHitCount post (run pre (start ttl)) \<and>
         totalMisses (overall (getStats now (fst (run (pre @ post) (start ttl))))) =
           totalMissCount post (run pre (start ttl)) \<and>
         totalRequests (overall (getStats now (fst (run (pre @ post) (start ttl))))) =
           totalHitCount post (run pre (start ttl)) + totalMissCount post (run pre (start ttl)) \<and>
         (0 < totalHitCount post (run pre (start ttl)) + totalMissCount post (run pre (start ttl)) \<longrightarrow>
            \<bar>of_int (hitRate (overall (getStats now (fst (run (pre @ post) (start ttl)))))) / 100 -
              of_nat (totalHitCount post (run pre (start ttl))) /
                of_nat (totalHitCount post (run pre (start ttl)) + totalMissCount post (run pre (start ttl)))
                * 100\<bar> \<le> (1 / 200 :: rat)) \<and>
         (totalHitCount post (run pre (start ttl)) + totalMissCount post (run pre (start ttl)) = 0 \<longrightarrow>
            hitRate (overall (getStats now (fst (run (pre @ post) (start ttl))))) = 0) \<and>
         (\<forall>c. hits' (byCategory (getStats now (fst (run (pre @ post) (start ttl)))) c) =
                 hitCount c post (run pre (start ttl)) \<and>
              misses' (byCategory (getStats now (fst (run (pre @ post) (start ttl)))) c) =
                 missCount c post (run pre (start ttl))) \<and>
         exec (GetStats now) (run (pre @ post) (start ttl)) = run (pre @ post) (start ttl)"
proof -
  let ?w = "run pre (start ttl)"
  let ?s = "fst (run (pre @ post) (start ttl))"
  have h: "hits ?s c = hitCount c post ?w" and m: "misses ?s c = missCount c post ?w" for c
    using run_counters [OF post, of ?w c] counters_after_reset [OF pre, of ttl c]
    by (simp_all add: run_append)
  have th: "totalHits (overall (getStats now ?s)) = totalHitCount post ?w"
    by (simp add: getStats_def Let_def totalHitCount_def h)
  have tm: "totalMisses (overall (getStats now ?s)) = totalMissCount post ?w"
    by (simp add: getStats_def Let_def totalMissCount_def m)
  have tr: "totalRequests (overall (getStats now ?s)) = totalHitCount post ?w + totalMissCount post ?w"
    by (simp add: getStats_def Let_def totalHitCount_def totalMissCount_def h m)
  have hr: "hitRate (overall (getStats now ?s)) =
      (if 0 < totalHitCount post ?w + totalMissCount post ?w
       then toFixed2 (of_nat (totalHitCount post ?w) /
              of_nat (totalHitCount post ?w + totalMissCount post ?w) * 100)
       else 0)"
    by (simp add: getStats_def Let_def totalHitCount_def totalMissCount_def h m)
  have per: "hits' (byCategory (getStats now ?s) c) = hitCount c post ?w \<and>
             misses' (byCategory (getStats now ?s) c) = missCount c post ?w" for c
    by (simp add: getStats_def Let_def h m)
  have pure: "exec (GetStats now) (run (pre @ post) (start ttl)) = run (pre @ post) (start ttl)"
    by (cases "run (pre @ post) (start ttl)") simp
  have near: "0 < totalHitCount post ?w + totalMissCount post ?w \<longrightarrow>
            \<bar>of_int (hitRate (overall (getStats now ?s))) / 100 -
              of_nat (totalHitCount post ?w) /
                of_nat (totalHitCount post ?w + totalMissCount post ?w) * 100\<bar> \<le> (1 / 200 :: rat)"
    using toFixed2_near [of "of_nat (totalHitCount post ?w) /
                of_nat (totalHitCount post ?w + totalMissCount post ?w) * 100"]
    by (simp only: hr) simp
  have zero: "totalHitCount post ?w + totalMissCount post ?w = 0 \<longrightarrow>
            hitRate (overall (getStats now ?s)) = 0"
    by (simp only: hr) simp
  from th tm tr near zero per pure show ?thesis by blast
qed

text \<open>
  After a miss and resetStats: ensureTags misses and then hits, ensureCorrespondents
  misses on an empty answer. One hit, two misses, a rate of 33.33 percent.
\<close>

theorem getStats_counts_since_reset_witness:
  "\<not> isResetStats (Ensure Tags (Inr [tag1]) 30 40) \<and>
   \<not> isResetStats (Ensure Tags (Inr [tag1]) 50 60) \<and>
   \<not> isResetStats (Ensure Correspondents (Inr []) 70 80) \<and>
   isResetStats (last [Ensure Tags (Inr []) 10 20, ResetStats]) \<and>
   totalHitCount [Ensure Tags (Inr [tag1]) 30 40, Ensure Tags (Inr [tag1]) 50 60,
        Ensure Correspondents (Inr []) 70 80]
      (run [Ensure Tags (Inr []) 10 20, ResetStats] (start 1000)) = 1 \<and>
   totalMissCount [Ensure Tags (Inr [tag1]) 30 40, Ensure Tags (Inr [tag1]) 50 60,
        Ensure Correspondents (Inr []) 70 80]
      (run [Ensure Tags (Inr []) 10 20, ResetStats] (start 1000)) = 2 \<and>
   totalHits (overall (getStats 90 (fst (run ([Ensure Tags (Inr []) 10 20, ResetStats] @
      [Ensure Tags (Inr [tag1]) 30 40, Ensure Tags (Inr [tag1]) 50 60,
        Ensure Correspondents (Inr []) 70 80]) (start 1000))))) = 1 \<and>
   totalMisses (overall (getStats 90 (fst (run ([Ensure Tags (Inr []) 10 20, ResetStats] @
      [Ensure Tags (Inr [tag1]) 30 40, Ensure Tags (Inr [tag1]) 50 60,
        Ensure Correspondents (Inr []) 70 80]) (start 1000))))) = 2 \<and>
   hitRate (overall (getStats 90 (fst (run ([Ensure Tags (Inr []) 10 20, ResetStats] @
      [Ensure Tags (Inr [tag1]) 30 40, Ensure Tags (Inr [tag1]) 50 60,
        Ensure Correspondents (Inr []) 70 80]) (start 1000))))) = 3333"
proof -
  have third: "toFixed2 (100 / 3) = 3333"
    unfolding toFixed2_def by (rule floor_unique) simp_all
  show ?thesis
    using getStats_counts_since_reset [where pre = "[Ensure Tags (Inr []) 10 20, ResetStats]"
      and post = "[Ensure Tags (Inr [tag1]) 30 40, Ensure Tags (Inr [tag1]) 50 60,
        Ensure Correspondents (Inr []) 70 80]" and ttl = 1000 and now = 90]
    by (simp add: isResetStats_def totalHitCount_def totalMissCount_def run_def start_def
      constructor_def service_def ensure_def refresh_def fetch_def populate_def resetStats_def
      isHit_def isCacheValid_def map_size_def map_values_def getStats_def third
      split: prod.splits)
qed

text \<open>
  The claim as it stands fails on a sequence with resetStats in it: one miss, then
  resetStats, and getStats reports no miss and no request.
\<close>

theorem resetStats_forgets_counts:
  "totalMissCount [Ensure Tags (Inr [tag1]) 10 20, ResetStats] (start 1000) = 1 \<and>
   totalHitCount [Ensure Tags (Inr [tag1]) 10 20, ResetStats] (start 1000) = 0 \<and>
   totalMisses (overall (getStats 30
      (fst (run [Ensure Tags (Inr [tag1]) 10 20, ResetStats] (start 1000))))) = 0 \<and>
   totalRequests (overall (getStats 30
      (fst (run [Ensure Tags (Inr [tag1]) 10 20, ResetStats] (start 1000))))) = 0"
  by (simp add: isResetStats_def totalHitCount_def totalMissCount_def run_def start_def
      constructor_def service_def ensure_def refresh_def fetch_def populate_def resetStats_def
      isHit_def isCacheValid_def map_size_def map_values_def getStats_def
      split: prod.splits)

text \<open>
  C9. The claim: the time of the last refresh is absent if and only if the Map is empty
  and no refresh has succeeded since the last clearAll. The add methods put a record
  and leave the time alone, so the Map need not be empty while the time is absent.
  What holds after every sequence of calls on a new cache, for every category: the time
  of the last refresh is absent if and only if no refresh of the category has succeeded
  since the last clearAll (since the cache was made when there was none); and while it
  is absent the Map is empty unless an add method has put a record since the last
  clearAll.
\<close>

theorem lastUpdate_absent_iff_never_refreshed:
  "(lastUpdate (fst (run ops (start ttl))) c = None) =
     (\<not> refreshedSinceClear c ops (start ttl) False) \<and>
   (\<not> refreshedSinceClear c ops (start ttl) False \<and> \<not> addedSinceClear c ops False \<longrightarrow>
      entries (fst (run ops (start ttl))) c = [])"
  using held_run [where c = c and w = "start ttl" and b = False and a = False and ops = ops,
      OF held_start]
  by (simp add: held_def)

text \<open>
  A refresh, an add and a clearAll, then an add to another category and an ensure that
  fails: the time of the tags is absent and their Map is empty. And a refresh that
  upstream answers with no record: the time is present, the Map is empty.
\<close>

theorem lastUpdate_absent_iff_never_refreshed_witness:
  "\<not> refreshedSinceClear Tags [Refresh Tags (Inr [tag1]) 10, AddOne Tags tag2, ClearAll,
       AddOne Correspondents tag3, Ensure Tags (Inl (Error ''down'')) 20 30] (start 1000) False \<and>
   \<not> addedSinceClear Tags [Refresh Tags (Inr [tag1]) 10, AddOne Tags tag2, ClearAll,
       AddOne Correspondents tag3, Ensure Tags (Inl (Error ''down'')) 20 30] False \<and>
   lastUpdate (fst (run [Refresh Tags (Inr [tag1]) 10, AddOne Tags tag2, ClearAll,
       AddOne Correspondents tag3, Ensure Tags (Inl (Error ''down'')) 20 30] (start 1000))) Tags = None \<and>
   entries (fst (run [Refresh Tags (Inr [tag1]) 10, AddOne Tags tag2, ClearAll,
       AddOne Correspondents tag3, Ensure Tags (Inl (Error ''down'')) 20 30] (start 1000))) Tags = [] \<and>
   refreshedSinceClear Tags [Refresh Tags (Inr []) 10] (start 1000) False \<and>
   lastUpdate (fst (run [Refresh Tags (Inr []) 10] (start 1000))) Tags = Some 10 \<and>
   entries (fst (run [Refresh Tags (Inr []) 10] (start 1000))) Tags = []"
  using lastUpdate_absent_iff_never_refreshed [where c = Tags and ttl = 1000
      and ops = "[Refresh Tags (Inr [tag1]) 10, AddOne Tags tag2, ClearAll,
       AddOne Correspondents tag3, Ensure Tags (Inl (Error ''down'')) 20 30]"]
    lastUpdate_absent_iff_never_refreshed [where c = Tags and ttl = 1000
      and ops = "[Refresh Tags (Inr []) 10]"]
  by (simp add: run_def start_def constructor_def service_def ensure_def refresh_def fetch_def
      populate_def clearAll_eq addOne_def isHit_def isCacheValid_def isOk_def map_size_def
      split: prod.splits)

text \<open>
  The claim as it stands fails after addTag on a new cache: the time is absent and no
  refresh has succeeded, but the Map is not empty.
\<close>

theorem addOne_breaks_absent_iff_empty:
  "lastUpdate (fst (run [AddOne Tags tag1] (start 1000))) Tags = None \<and>
   \<not> refreshedSinceClear Tags [AddOne Tags tag1] (start 1000) False \<and>
   entries (fst (run [AddOne Tags tag1] (start 1000))) Tags \<noteq> [] \<and>
   \<not> ((lastUpdate (fst (run [AddOne Tags tag1] (start 1000))) Tags = None) =
       (entries (fst (run [AddOne Tags tag1] (start 1000))) Tags = [] \<and>
        \<not> refreshedSinceClear Tags [AddOne Tags tag1] (start 1000) False))"
  by (simp add: run_def start_def constructor_def service_def addOne_def)

text \<open>
  C10. The refresh counter is incremented before the upstream call is awaited. A refresh
  whose call is rejected leaves the cache as it was but for that counter, one higher,
  and getStats reports the higher number. In the steps of a call that overlaps others:
  the counter is already one higher while the request is in flight, and the rejection of
  the request changes nothing in the cache.
\<close>

theorem refresh_counts_attempts:
  assumes "answer svc type = Inl e"
  shows "refresh type svc now s =
           (Inl e,
            s\<lparr>refreshes := (refreshes s)(type := refreshes s type + 1)\<rparr>,
            svc\<lparr>calls := (calls svc)(type := calls svc type + 1)\<rparr>) \<and>
         refreshes' (byCategory (getStats t (fst (snd (refresh type svc now s)))) type) =
           refreshes' (byCategory (getStats t s) type) + 1 \<and>
         refreshes (cache (refreshCall type y)) type = refreshes (cache y) type + 1 \<and>
         inflight (refreshCall type y) = inflight y @ [type] \<and>
         (i < length (inflight y) \<longrightarrow> cache (snd (settle i (Inl e) now y)) = cache y)"
  by (simp add: refresh_Inl [OF assms] getStats_def refreshCall_def settle_def Let_def)

text \<open>
  A new cache, upstream down: one failed refresh, and the counter of the tags is 1.
\<close>

theorem refresh_counts_attempts_witness:
  "answer (failing ''down'') Tags = Inl (Error ''down'') \<and>
   (0::nat) < length (inflight (refreshCall Tags (boot 1000))) \<and>
   refreshes (fst (snd (refresh Tags (failing ''down'') 10 (constructor 1000)))) Tags = 1 \<and>
   refreshes' (byCategory (getStats 20 (fst (snd (refresh Tags (failing ''down'') 10 (constructor 1000))))) Tags) = 1 \<and>
   refreshes (cache (refreshCall Tags (boot 1000))) Tags = 1 \<and>
   inflight (refreshCall Tags (boot 1000)) = [Tags] \<and>
   refreshes (cache (snd (settle 0 (Inl (Error ''down'')) 10 (refreshCall Tags (boot 1000))))) Tags = 1 \<and>
   lastUpdate (cache (snd (settle 0 (Inl (Error ''down'')) 10 (refreshCall Tags (boot 1000))))) Tags = None"
  using refresh_counts_attempts [where svc = "failing ''down''" and type = Tags and e = "Error ''down''"
      and now = 10 and s = "constructor 1000" and t = 20 and i = 0 and y = "refreshCall Tags (boot 1000)"]
  by (simp add: failing_def service_def constructor_def boot_def refreshCall_def getStats_def)

end
